theory Spec2Isabelle
  imports
    Complex_Main
    "HOL-Library.Word"
    "HOL-Library.Log_Nat"
    "HOL-Library.Char_ord"
    "HOL-Library.List_Lexorder"
    "HOL-Library.AList"
begin

section \<open>Errors\<close>

text \<open>
  The exceptions the notebook's compositing cells can raise, named as Python names them.
  \<open>ValueError\<close> is raised by \<open>create_video_with_overlay\<close> itself (product image not
  loaded) and by numpy when two shapes cannot be broadcast; \<open>IndexError\<close> by indexing a
  channel an array does not have and by \<open>[0]\<close> on an empty list; \<open>AttributeError\<close> by
  \<open>.shape\<close> on the \<open>None\<close> that \<open>cv2.imread\<close> returns for an unreadable file;
  \<open>CvError\<close> is \<open>cv2.error\<close>; the rest are subclasses of \<open>OSError\<close> raised by
  \<open>pathlib\<close> and \<open>os\<close> (\<open>IsADirectoryError\<close> is what \<open>os.remove\<close> raises for a directory on
  Linux); \<open>ClipError\<close> stands for whatever moviepy raises.
\<close>

datatype error =
    ValueError
  | IndexError
  | AttributeError
  | CvError
  | FileExistsError
  | FileNotFoundError
  | NotADirectoryError
  | IsADirectoryError
  | OSError
  | ClipError

text \<open>In Python 3 \<open>IOError\<close> is an alias of \<open>OSError\<close>; it catches \<open>OSError\<close> and its subclasses.\<close>

fun is_IOError :: "error \<Rightarrow> bool" where
  "is_IOError FileExistsError = True"
| "is_IOError FileNotFoundError = True"
| "is_IOError NotADirectoryError = True"
| "is_IOError IsADirectoryError = True"
| "is_IOError OSError = True"
| "is_IOError _ = False"

section \<open>Images\<close>

text \<open>
  A \<open>numpy\<close> array of dtype \<open>uint8\<close> and shape \<open>(height, width, chans)\<close>, as \<open>cv2\<close>
  hands it out: the shape and the value at each index \<open>px y x c\<close>. Only indices inside
  the shape are meaningful.
\<close>

record image =
  height :: nat
  width :: nat
  chans :: nat
  px :: "nat \<Rightarrow> nat \<Rightarrow> nat \<Rightarrow> 8 word"

text \<open>A two-dimensional \<open>float64\<close> array: what \<open>arr[:, :, c] / 255.0\<close> and the products are.\<close>

record plane =
  ph :: nat
  pw :: nat
  pv :: "nat \<Rightarrow> nat \<Rightarrow> rat"

section \<open>IEEE 754 double precision\<close>

text \<open>
  \<open>float64\<close> values are rationals; every arithmetic operation computes the exact result
  and rounds it to the nearest value with a 53-bit significand, ties to even.
  \<open>expo x\<close> is the binary exponent \<open>\<lfloor>log\<^sub>2 \<bar>x\<bar>\<rfloor>\<close>, \<open>-1022\<close> is the smallest normal
  exponent (below it the spacing stays that of the subnormals). Overflow to infinity is
  not modelled: the compositor's values stay below 256.
\<close>

definition pow2 :: "int \<Rightarrow> rat" where
  "pow2 k = (if 0 \<le> k then 2 ^ nat k else 1 / 2 ^ nat (- k))"

definition expo :: "rat \<Rightarrow> int" where
  "expo x = (if 1 \<le> \<bar>x\<bar> then bitlen \<lfloor>\<bar>x\<bar>\<rfloor> - 1 else - bitlen (\<lceil>1 / \<bar>x\<bar>\<rceil> - 1))"

definition rne :: "rat \<Rightarrow> int" where
  "rne y = (let f = \<lfloor>y\<rfloor>; d = y - of_int f in
     if d < 1 / 2 then f
     else if 1 / 2 < d then f + 1
     else if even f then f else f + 1)"

definition f64_round :: "rat \<Rightarrow> rat" where
  "f64_round x = (if x = 0 then 0 else
     let u = pow2 (max (expo x) (- 1022) - 52) in of_int (rne (x / u)) * u)"

definition f64_add :: "rat \<Rightarrow> rat \<Rightarrow> rat" where
  "f64_add a b = f64_round (a + b)"

definition f64_sub :: "rat \<Rightarrow> rat \<Rightarrow> rat" where
  "f64_sub a b = f64_round (a - b)"

definition f64_mul :: "rat \<Rightarrow> rat \<Rightarrow> rat" where
  "f64_mul a b = f64_round (a * b)"

definition f64_div :: "rat \<Rightarrow> rat \<Rightarrow> rat" where
  "f64_div a b = f64_round (a / b)"

text \<open>
  Storing a \<open>float64\<close> into a \<open>uint8\<close> array is a C cast: the fraction is cut off
  (towards zero) and the integer is kept modulo 256.
\<close>

definition astype_uint8 :: "rat \<Rightarrow> 8 word" where
  "astype_uint8 r = word_of_int (if 0 \<le> r then \<lfloor>r\<rfloor> else \<lceil>r\<rceil>)"

section \<open>Array operations\<close>

text \<open>\<open>arr[:, :, c]\<close> read as an operand of float arithmetic; \<open>IndexError\<close> when the
  array has no channel \<open>c\<close>. The conversion of a \<open>uint8\<close> to \<open>float64\<close> is exact.\<close>

definition chan_plane :: "image \<Rightarrow> nat \<Rightarrow> error + plane" where
  "chan_plane img c =
     (if chans img \<le> c then Inl IndexError
      else Inr \<lparr>ph = height img, pw = width img,
                pv = \<lambda>y x. of_nat (unat (px img y x c))\<rparr>)"

definition plane_map :: "(rat \<Rightarrow> rat) \<Rightarrow> plane \<Rightarrow> plane" where
  "plane_map f A = A\<lparr>pv := \<lambda>y x. f (pv A y x)\<rparr>"

text \<open>numpy broadcasting of one axis: equal lengths, or one of them is 1 and is repeated.\<close>

definition bcast_dim :: "nat \<Rightarrow> nat \<Rightarrow> nat option" where
  "bcast_dim m n =
     (if m = n then Some m else if m = 1 then Some n else if n = 1 then Some m else None)"

definition bidx :: "nat \<Rightarrow> nat \<Rightarrow> nat" where
  "bidx n i = (if n = 1 then 0 else i)"

definition broadcast2 :: "(rat \<Rightarrow> rat \<Rightarrow> rat) \<Rightarrow> plane \<Rightarrow> plane \<Rightarrow> error + plane" where
  "broadcast2 f A B =
     (case bcast_dim (ph A) (ph B) of
        None \<Rightarrow> Inl ValueError
      | Some h \<Rightarrow>
          (case bcast_dim (pw A) (pw B) of
             None \<Rightarrow> Inl ValueError
           | Some w \<Rightarrow>
               Inr \<lparr>ph = h, pw = w,
                    pv = \<lambda>y x. f (pv A (bidx (ph A) y) (bidx (pw A) x))
                                  (pv B (bidx (ph B) y) (bidx (pw B) x))\<rparr>))"

text \<open>\<open>arr[:, :, c] = v\<close>: the value must broadcast to the shape of the slice
  (each axis equal or 1), and is cast to \<open>uint8\<close>.\<close>

definition assign_channel :: "image \<Rightarrow> nat \<Rightarrow> plane \<Rightarrow> error + image" where
  "assign_channel img c v =
     (if chans img \<le> c then Inl IndexError
      else if (ph v = height img \<or> ph v = 1) \<and> (pw v = width img \<or> pw v = 1)
      then Inr (img\<lparr>px := \<lambda>y x ch.
                  if ch = c then astype_uint8 (pv v (bidx (ph v) y) (bidx (pw v) x))
                  else px img y x ch\<rparr>)
      else Inl ValueError)"

section \<open>The store of arrays\<close>

text \<open>
  Arrays are objects: a variable holds a reference, and \<open>arr[...] = v\<close> changes the
  object every holder of the reference sees. The store is the list of arrays allocated
  so far, a reference is an index into it.
\<close>

type_synonym ref = nat
type_synonym heap = "image list"

definition alloc :: "heap \<Rightarrow> image \<Rightarrow> ref \<times> heap" where
  "alloc h img = (length h, h @ [img])"

text \<open>\<open>cv2.cvtColor\<close> returns a new array and refuses an empty one. \<open>COLOR_BGR2BGRA\<close>
  adds an alpha channel of 255, \<open>COLOR_BGRA2BGR\<close> drops the alpha channel.\<close>

definition cvtColor_BGR2BGRA :: "heap \<Rightarrow> ref \<Rightarrow> error + (ref \<times> heap)" where
  "cvtColor_BGR2BGRA h r =
     (let img = h ! r in
      if height img = 0 \<or> width img = 0 then Inl CvError
      else Inr (alloc h (img\<lparr>chans := 4,
                  px := \<lambda>y x c. if c = 3 then 255 else px img y x c\<rparr>)))"

definition cvtColor_BGRA2BGR :: "heap \<Rightarrow> ref \<Rightarrow> error + (ref \<times> heap)" where
  "cvtColor_BGRA2BGR h r =
     (let img = h ! r in
      if height img = 0 \<or> width img = 0 then Inl CvError
      else Inr (alloc h (img\<lparr>chans := 3\<rparr>)))"

section \<open>Alpha Compositor: \<open>overlay_product_simple\<close>\<close>

text \<open>
  \<^verbatim>\<open>
  def overlay_product_simple(background, product_img):
      if background.shape[2] == 3:
          background = cv2.cvtColor(background, cv2.COLOR_BGR2BGRA)
      alpha = product_img[:, :, 3] / 255.0
      for c in range(3):
          background[:, :, c] = background[:, :, c] * (1 - alpha) + product_img[:, :, c] * alpha
      return background
  \<close>
  \<open>blend_expr\<close> is the right-hand side of the assignment in the loop, evaluated in
  Python's order on the two arrays as they are at that moment; \<open>blend_channel\<close> is one
  round of the loop, which stores the value into the array the local variable
  \<open>background\<close> refers to.
\<close>

definition blend_expr :: "nat \<Rightarrow> image \<Rightarrow> image \<Rightarrow> plane \<Rightarrow> error + plane" where
  "blend_expr c B P alpha =
     (case chan_plane B c of Inl e \<Rightarrow> Inl e | Inr b \<Rightarrow>
     (case broadcast2 f64_mul b (plane_map (f64_sub 1) alpha) of Inl e \<Rightarrow> Inl e | Inr t1 \<Rightarrow>
     (case chan_plane P c of Inl e \<Rightarrow> Inl e | Inr p \<Rightarrow>
     (case broadcast2 f64_mul p alpha of Inl e \<Rightarrow> Inl e | Inr t2 \<Rightarrow>
        broadcast2 f64_add t1 t2))))"

definition blend_channel :: "nat \<Rightarrow> ref \<Rightarrow> ref \<Rightarrow> plane \<Rightarrow> heap \<Rightarrow> error + heap" where
  "blend_channel c background product_img alpha h =
     (case blend_expr c (h ! background) (h ! product_img) alpha of Inl e \<Rightarrow> Inl e | Inr s \<Rightarrow>
     (case assign_channel (h ! background) c s of Inl e \<Rightarrow> Inl e
      | Inr img \<Rightarrow> Inr (h[background := img])))"

fun blend_channels :: "nat list \<Rightarrow> ref \<Rightarrow> ref \<Rightarrow> plane \<Rightarrow> heap \<Rightarrow> error + heap" where
  "blend_channels [] background product_img alpha h = Inr h"
| "blend_channels (c # cs) background product_img alpha h =
     (case blend_channel c background product_img alpha h of
        Inl e \<Rightarrow> Inl e
      | Inr h' \<Rightarrow> blend_channels cs background product_img alpha h')"

definition overlay_product_simple :: "heap \<Rightarrow> ref \<Rightarrow> ref \<Rightarrow> error + (ref \<times> heap)" where
  "overlay_product_simple h background product_img =
     (case (if chans (h ! background) = 3 then cvtColor_BGR2BGRA h background
            else Inr (background, h)) of
        Inl e \<Rightarrow> Inl e
      | Inr (bg, h1) \<Rightarrow>
          (case chan_plane (h1 ! product_img) 3 of
             Inl e \<Rightarrow> Inl e
           | Inr a \<Rightarrow>
               let alpha = plane_map (\<lambda>v. f64_div v 255) a in
               (case blend_channels [0, 1, 2] bg product_img alpha h1 of
                  Inl e \<Rightarrow> Inl e
                | Inr h2 \<Rightarrow> Inr (bg, h2))))"

section \<open>Files and directories\<close>

text \<open>
  An entry of a directory is a regular file, which either decodes to an image or does
  not, or a sub-directory. A directory is the list of its entries, in the arbitrary
  order \<open>os.listdir\<close> reports them; the names are distinct. \<open>node\<close> is what the file
  system has at the path \<open>frames_folder\<close>.
\<close>

datatype content = ImageFile image | OtherFile | SubDirectory

type_synonym dir = "(string \<times> content) list"

datatype node = Missing | RegularFile | Directory dir

definition listdir :: "dir \<Rightarrow> string list" where
  "listdir d = map fst d"

text \<open>\<open>cv2.imread(path)\<close> returns \<open>None\<close> for a missing or undecodable file and for a
  directory, and always three channels otherwise; with \<open>IMREAD_UNCHANGED\<close> the channels
  are those of the file.\<close>

definition to_bgr :: "image \<Rightarrow> image" where
  "to_bgr img =
     (if chans img = 3 then img
      else if chans img = 4 then img\<lparr>chans := 3\<rparr>
      else img\<lparr>chans := 3, px := \<lambda>y x c. px img y x 0\<rparr>)"

fun imread :: "content option \<Rightarrow> image option" where
  "imread (Some (ImageFile img)) = Some (to_bgr img)"
| "imread _ = None"

fun imread_unchanged :: "content option \<Rightarrow> image option" where
  "imread_unchanged (Some (ImageFile img)) = Some img"
| "imread_unchanged _ = None"

text \<open>\<open>cv2.imwrite(path, frame)\<close> with a \<open>.jpg\<close> path: JPEG is lossy, so the file decodes
  to \<open>jpeg frame\<close>, where \<open>jpeg\<close> is the codec's round trip, a parameter of the model.
  Where the path is taken by a sub-directory nothing can be written: \<open>imwrite\<close> returns
  \<open>False\<close> without raising, and the extractor does not look at what it returns.\<close>

definition imwrite :: "(image \<Rightarrow> image) \<Rightarrow> string \<Rightarrow> image \<Rightarrow> dir \<Rightarrow> dir" where
  "imwrite jpeg path frame d =
     (if map_of d path = Some SubDirectory then d
      else AList.update path (ImageFile (jpeg frame)) d)"

section \<open>Frame Extractor: \<open>split_video_to_frames\<close>\<close>

text \<open>\<open>f'frame_{frame_count:04d}.jpg'\<close>: the decimal digits, padded with zeros on the
  left to a width of at least four.\<close>

definition digit_char :: "nat \<Rightarrow> char" where
  "digit_char d = char_of (48 + d)"

fun dec :: "nat \<Rightarrow> string" where
  "dec n = (if n < 10 then [digit_char n] else dec (n div 10) @ [digit_char (n mod 10)])"

declare dec.simps [simp del]

definition zfill4 :: "string \<Rightarrow> string" where
  "zfill4 s = replicate (4 - length s) (CHR ''0'') @ s"

definition frame_name :: "nat \<Rightarrow> string" where
  "frame_name n = ''frame_'' @ zfill4 (dec n) @ ''.jpg''"

text \<open>
  \<^verbatim>\<open>
  def split_video_to_frames(video_path, output_folder):
      Path(output_folder).mkdir(parents=True, exist_ok=True)
      cap = cv2.VideoCapture(video_path)
      frame_count = 0
      while cap.isOpened():
          ret, frame = cap.read()
          if not ret:
              break
          output_path = os.path.join(output_folder, f'frame_{frame_count:04d}.jpg')
          cv2.imwrite(output_path, frame)
          frame_count += 1
      cap.release()
      return frame_count
  \<close>
  A video file is either one \<open>cv2.VideoCapture\<close> cannot open (\<open>isOpened()\<close> is false) or
  a finite sequence of frames that \<open>read()\<close> hands out one by one before it reports
  failure.
\<close>

datatype video = Unopenable | Frames "image list"

definition mkdir_exist_ok :: "node \<Rightarrow> error + dir" where
  "mkdir_exist_ok n =
     (case n of Missing \<Rightarrow> Inr [] | RegularFile \<Rightarrow> Inl FileExistsError | Directory d \<Rightarrow> Inr d)"

fun read_loop :: "(image \<Rightarrow> image) \<Rightarrow> image list \<Rightarrow> nat \<Rightarrow> dir \<Rightarrow> dir \<times> nat" where
  "read_loop jpeg [] frame_count d = (d, frame_count)"
| "read_loop jpeg (frame # rest) frame_count d =
     read_loop jpeg rest (frame_count + 1) (imwrite jpeg (frame_name frame_count) frame d)"

definition split_video_to_frames ::
    "(image \<Rightarrow> image) \<Rightarrow> video \<Rightarrow> node \<Rightarrow> error + (node \<times> nat)" where
  "split_video_to_frames jpeg video_path output_folder =
     (case mkdir_exist_ok output_folder of
        Inl e \<Rightarrow> Inl e
      | Inr d \<Rightarrow>
          (case video_path of
             Unopenable \<Rightarrow> Inr (Directory d, 0)
           | Frames fs \<Rightarrow>
               (case read_loop jpeg fs 0 d of (d', frame_count) \<Rightarrow>
                  Inr (Directory d', frame_count))))"

section \<open>Frame Assembler: \<open>create_video_with_overlay\<close>\<close>

text \<open>
  \<^verbatim>\<open>
  def create_video_with_overlay(frames_folder, product_path, output_path, fps=24):
      product = cv2.imread(product_path, cv2.IMREAD_UNCHANGED)
      if product is None:
          raise ValueError("Could not load product image")
      first_frame = cv2.imread(os.path.join(frames_folder, sorted(os.listdir(frames_folder))[0]))
      height, width = first_frame.shape[:2]
      fourcc = cv2.VideoWriter_fourcc(*'mp4v')
      out = cv2.VideoWriter(output_path, fourcc, fps, (width, height))
      for frame_file in sorted(os.listdir(frames_folder)):
          if frame_file.endswith(('.jpg', '.png')):
              frame_path = os.path.join(frames_folder, frame_file)
              frame = cv2.imread(frame_path)
              frame_with_overlay = overlay_product_simple(frame, product)
              if frame_with_overlay.shape[2] == 4:
                  frame_with_overlay = cv2.cvtColor(frame_with_overlay, cv2.COLOR_BGRA2BGR)
              out.write(frame_with_overlay)
      out.release()
  \<close>
  What the function does with the writer is recorded as it happens: the size and frame
  rate given to the constructor and the frames passed to \<open>out.write\<close>, in order. Python
  compares strings by code point, which is the lexicographic order on \<open>char list\<close>. A
  frame that \<open>imread\<close> could not read is \<open>None\<close>, and \<open>overlay_product_simple\<close> raises
  \<open>AttributeError\<close> at \<open>background.shape\<close>.
\<close>

record video_out =
  vw_width :: nat
  vw_height :: nat
  vw_fps :: nat
  vw_frames :: "image list"

text \<open>
  What a decoder then finds in the output file is decided by \<open>cv2.VideoWriter\<close>. Its
  constructor does not raise when it cannot open the output (codec, container or frame
  size not supported), and the function never calls \<open>out.isOpened()\<close>: a writer that did
  not open ignores every \<open>write\<close>. A writer that opened drops, just as silently, every
  frame that does not have the size given to the constructor and three channels. The
  \<open>mp4v\<close> codec is lossy, so a frame that was written is decoded as \<open>codec frame\<close>. Whether
  the writer opened and the codec's round trip are parameters of the model.
\<close>

definition decoded_frames :: "bool \<Rightarrow> (image \<Rightarrow> image) \<Rightarrow> video_out \<Rightarrow> image list" where
  "decoded_frames writer_opened codec out =
     (if writer_opened then
        map codec (filter (\<lambda>f. width f = vw_width out \<and> height f = vw_height out \<and> chans f = 3)
                     (vw_frames out))
      else [])"

definition endswith :: "string \<Rightarrow> string \<Rightarrow> bool" where
  "endswith s suf = (length suf \<le> length s \<and> drop (length s - length suf) s = suf)"

fun overlay_loop :: "string list \<Rightarrow> dir \<Rightarrow> ref \<Rightarrow> heap \<Rightarrow> image list \<Rightarrow> error + image list" where
  "overlay_loop [] d product h out = Inr out"
| "overlay_loop (frame_file # rest) d product h out =
     (if endswith frame_file ''.jpg'' \<or> endswith frame_file ''.png'' then
        (case imread (map_of d frame_file) of
           None \<Rightarrow> Inl AttributeError
         | Some frame_img \<Rightarrow>
             (case alloc h frame_img of (frame, h1) \<Rightarrow>
             (case overlay_product_simple h1 frame product of
                Inl e \<Rightarrow> Inl e
              | Inr (r, h2) \<Rightarrow>
                  (case (if chans (h2 ! r) = 4 then cvtColor_BGRA2BGR h2 r else Inr (r, h2)) of
                     Inl e \<Rightarrow> Inl e
                   | Inr (frame_with_overlay, h3) \<Rightarrow>
                       overlay_loop rest d product h3 (out @ [h3 ! frame_with_overlay])))))
      else overlay_loop rest d product h out)"

definition create_video_with_overlay :: "node \<Rightarrow> content option \<Rightarrow> nat \<Rightarrow> error + video_out" where
  "create_video_with_overlay frames_folder product_path fps =
     (case imread_unchanged product_path of
        None \<Rightarrow> Inl ValueError
      | Some product_img \<Rightarrow>
          (case alloc [] product_img of (product, h) \<Rightarrow>
          (case frames_folder of
             Missing \<Rightarrow> Inl FileNotFoundError
           | RegularFile \<Rightarrow> Inl NotADirectoryError
           | Directory d \<Rightarrow>
               (case sort (listdir d) of
                  [] \<Rightarrow> Inl IndexError
                | first # _ \<Rightarrow>
                    (case imread (map_of d first) of
                       None \<Rightarrow> Inl AttributeError
                     | Some first_frame \<Rightarrow>
                         (case overlay_loop (sort (listdir d)) d product h [] of
                            Inl e \<Rightarrow> Inl e
                          | Inr frames \<Rightarrow>
                              Inr \<lparr>vw_width = width first_frame,
                                   vw_height = height first_frame,
                                   vw_fps = fps, vw_frames = frames\<rparr>))))))"

section \<open>Pipeline Orchestrator: the execution cell\<close>

text \<open>
  \<^verbatim>\<open>
  frame_count = split_video_to_frames(video_path, frames_folder)
  create_video_with_overlay(frames_folder, product_path, output_path)
  for frame_file in os.listdir(frames_folder):
      os.remove(os.path.join(frames_folder, frame_file))
  os.rmdir(frames_folder)
  \<close>
  The cell is straight-line code: an exception in any statement ends it there. A run
  returns its outcome together with what is at \<open>frames_folder\<close> afterwards.
  \<open>os.remove\<close> deletes a regular file and raises for a sub-directory
  (\<open>IsADirectoryError\<close>) and for a name that is not there; the loop stops at the first
  entry it cannot remove, with the entries before it gone. \<open>os.rmdir\<close> removes an empty
  directory and raises \<open>OSError\<close> for any other.
\<close>

fun remove_loop :: "string list \<Rightarrow> dir \<Rightarrow> error option \<times> dir" where
  "remove_loop [] d = (None, d)"
| "remove_loop (frame_file # rest) d =
     (case map_of d frame_file of
        None \<Rightarrow> (Some FileNotFoundError, d)
      | Some SubDirectory \<Rightarrow> (Some IsADirectoryError, d)
      | Some _ \<Rightarrow> remove_loop rest (AList.delete frame_file d))"

definition cleanup :: "node \<Rightarrow> error option \<times> node" where
  "cleanup n =
     (case n of
        Missing \<Rightarrow> (Some FileNotFoundError, Missing)
      | RegularFile \<Rightarrow> (Some NotADirectoryError, RegularFile)
      | Directory d \<Rightarrow>
          (case remove_loop (listdir d) d of
             (Some e, d') \<Rightarrow> (Some e, Directory d')
           | (None, d') \<Rightarrow>
               if d' = [] then (None, Missing) else (Some OSError, Directory d')))"

definition run_pipeline ::
    "(image \<Rightarrow> image) \<Rightarrow> video \<Rightarrow> content option \<Rightarrow> node \<Rightarrow> (error + video_out) \<times> node" where
  "run_pipeline jpeg video_path product_path frames_folder =
     (case split_video_to_frames jpeg video_path frames_folder of
        Inl e \<Rightarrow> (Inl e, frames_folder)
      | Inr (folder1, frame_count) \<Rightarrow>
          (case create_video_with_overlay folder1 product_path 24 of
             Inl e \<Rightarrow> (Inl e, folder1)
           | Inr out \<Rightarrow>
               (case cleanup folder1 of
                  (Some e, folder2) \<Rightarrow> (Inl e, folder2)
                | (None, folder2) \<Rightarrow> (Inr out, folder2))))"

section \<open>Transcoder: \<open>convert_to_h264\<close>\<close>

text \<open>
  \<^verbatim>\<open>
  def convert_to_h264(input_file, output_file):
      clip = VideoFileClip(input_file)
      clip.write_videofile(output_file, codec='libx264', fps=24, preset='medium', bitrate='4000k')
      clip.close()
  \<close>
  What moviepy does is outside the repository; the model keeps the two ways it can
  fail and the one resource the function holds: the clip's decoder, open from the
  constructor's return until \<open>clip.close()\<close>. The state is the number of open clips.
\<close>

definition convert_to_h264 :: "bool \<Rightarrow> bool \<Rightarrow> nat \<Rightarrow> (error + unit) \<times> nat" where
  "convert_to_h264 input_readable write_succeeds open_clips =
     (if \<not> input_readable then (Inl ClipError, open_clips)
      else let open1 = open_clips + 1 in
        if \<not> write_succeeds then (Inl ClipError, open1)
        else (Inr (), open1 - 1))"

section \<open>Notions used to state the theorems\<close>

text \<open>
  The value the loop stores at one index: background value \<open>b\<close>, product value \<open>p\<close>,
  and the alpha plane's value \<open>al\<close> there, which is \<open>alpha_value a\<close> for the product's
  alpha byte \<open>a\<close>.
\<close>

definition blend_value :: "8 word \<Rightarrow> rat \<Rightarrow> 8 word \<Rightarrow> 8 word" where
  "blend_value b al p =
     astype_uint8 (f64_add (f64_mul (of_nat (unat b)) (f64_sub 1 al)) (f64_mul (of_nat (unat p)) al))"

definition alpha_value :: "8 word \<Rightarrow> rat" where
  "alpha_value a = f64_div (of_nat (unat a)) 255"

text \<open>
  The loop of \<open>overlay_product_simple\<close> on the two arrays themselves rather than on the
  store: \<open>aliased\<close> says that both variables refer to the same array, so that the product
  read in the next round is the background just written.
\<close>

fun blend_channels_img :: "bool \<Rightarrow> nat list \<Rightarrow> image \<Rightarrow> image \<Rightarrow> plane \<Rightarrow> error + image" where
  "blend_channels_img aliased [] B P alpha = Inr B"
| "blend_channels_img aliased (c # cs) B P alpha =
     (case blend_expr c B P alpha of Inl e \<Rightarrow> Inl e | Inr s \<Rightarrow>
     (case assign_channel B c s of Inl e \<Rightarrow> Inl e
      | Inr B' \<Rightarrow> blend_channels_img aliased cs B' (if aliased then B' else P) alpha))"

text \<open>
  \<open>overlay_product_simple\<close> for a background that is converted first, as a function
  of the two arrays; and what one round of the loop of \<open>create_video_with_overlay\<close>
  hands to \<open>out.write\<close> for a frame read from disk, computed on a store that holds
  the product and that frame only.
\<close>

definition overlay_img :: "image \<Rightarrow> image \<Rightarrow> error + image" where
  "overlay_img B P =
     (if height B = 0 \<or> width B = 0 then Inl CvError
      else
        (case chan_plane P 3 of
           Inl e \<Rightarrow> Inl e
         | Inr a \<Rightarrow>
             blend_channels_img False [0, 1, 2]
               (B\<lparr>chans := 4, px := \<lambda>y x c. if c = 3 then 255 else px B y x c\<rparr>) P
               (plane_map (\<lambda>v. f64_div v 255) a)))"

definition composite_frame :: "image \<Rightarrow> image \<Rightarrow> error + image" where
  "composite_frame product_img frame_img =
     (case overlay_product_simple [product_img, frame_img] 1 0 of
        Inl e \<Rightarrow> Inl e
      | Inr (r, h2) \<Rightarrow>
          (case (if chans (h2 ! r) = 4 then cvtColor_BGRA2BGR h2 r else Inr (r, h2)) of
             Inl e \<Rightarrow> Inl e
           | Inr (frame_with_overlay, h3) \<Rightarrow> Inr (h3 ! frame_with_overlay)))"

text \<open>The directory the extractor leaves behind for the frames \<open>fs\<close>, when it starts
  from an empty one.\<close>

definition frame_files :: "(image \<Rightarrow> image) \<Rightarrow> image list \<Rightarrow> dir" where
  "frame_files jpeg fs =
     map (\<lambda>(i, f). (frame_name i, ImageFile (jpeg f))) (zip [0..<length fs] fs)"

text \<open>The entries at a path (none unless it is a directory), whether their names are
  all different, as they are in a file system, and whether one of them is a
  sub-directory.\<close>

definition entries :: "node \<Rightarrow> dir" where
  "entries n = (case n of Directory d \<Rightarrow> d | _ \<Rightarrow> [])"

definition distinct_names :: "node \<Rightarrow> bool" where
  "distinct_names n = distinct (listdir (entries n))"

definition holds_subdirectory :: "node \<Rightarrow> bool" where
  "holds_subdirectory n = (SubDirectory \<in> snd ` set (entries n))"

text \<open>The number a string of decimal digits denotes.\<close>

definition undec :: "string \<Rightarrow> nat" where
  "undec s = foldl (\<lambda>a c. 10 * a + (of_char c - 48)) 0 s"

text \<open>What a caller can observe of a returned array: its reference and shape, and the
  value at one index.\<close>

definition result_shape :: "error + (ref \<times> heap) \<Rightarrow> error + (ref \<times> nat \<times> nat \<times> nat)" where
  "result_shape res =
     (case res of Inl e \<Rightarrow> Inl e
      | Inr (r, h) \<Rightarrow> Inr (r, height (h ! r), width (h ! r), chans (h ! r)))"

definition result_pixel :: "error + (ref \<times> heap) \<Rightarrow> nat \<Rightarrow> nat \<Rightarrow> nat \<Rightarrow> error + 8 word" where
  "result_pixel res y x c =
     (case res of Inl e \<Rightarrow> Inl e | Inr (r, h) \<Rightarrow> Inr (px (h ! r) y x c))"

text \<open>Concrete images for the examples: \<open>solid\<close> has one value in every channel of every
  pixel, \<open>cutout\<close> is a four-channel image of one colour \<open>v\<close> and one alpha \<open>a\<close>.\<close>

definition px_const :: "8 word \<Rightarrow> nat \<Rightarrow> nat \<Rightarrow> nat \<Rightarrow> 8 word" where
  "px_const v y x c = v"

definition solid :: "nat \<Rightarrow> nat \<Rightarrow> nat \<Rightarrow> 8 word \<Rightarrow> image" where
  "solid h w c v = \<lparr>height = h, width = w, chans = c, px = px_const v\<rparr>"

definition px_rgba :: "8 word \<Rightarrow> 8 word \<Rightarrow> nat \<Rightarrow> nat \<Rightarrow> nat \<Rightarrow> 8 word" where
  "px_rgba v a y x c = (if c = 3 then a else v)"

definition cutout :: "nat \<Rightarrow> nat \<Rightarrow> 8 word \<Rightarrow> 8 word \<Rightarrow> image" where
  "cutout h w v a = \<lparr>height = h, width = w, chans = 4, px = px_rgba v a\<rparr>"

text \<open>A video of 10001 frames of 1280 x 720 pixels: 10000 black ones and a white one at
  the end.\<close>

definition long_video :: "image list" where
  "long_video = replicate 10000 (solid 720 1280 3 0) @ [solid 720 1280 3 255]"

section \<open>Rounding error of the blend\<close>

lemma rne_err: "\<bar>of_int (rne y) - y\<bar> \<le> 1 / 2"
proof -
  have "of_int \<lfloor>y\<rfloor> \<le> y" "y < of_int \<lfloor>y\<rfloor> + 1" by linarith+
  then show ?thesis
    unfolding rne_def Let_def by (auto simp: abs_le_iff)
qed

lemma pow2_powi: "pow2 k = 2 powi k"
  by (simp add: pow2_def power_int_def field_simps)

lemma pow2_pos: "0 < pow2 k"
  by (simp add: pow2_powi)

lemma pow2_mono: "a \<le> b \<Longrightarrow> pow2 a \<le> pow2 b"
  by (simp add: pow2_powi power_int_increasing)

lemma bitlen_le8: "n < 256 \<Longrightarrow> bitlen n \<le> 8"
  by (simp add: bitlen_def floorlog_le_iff)

lemma expo_le7: "\<bar>x\<bar> < 256 \<Longrightarrow> expo x \<le> 7"
proof (cases "1 \<le> \<bar>x\<bar>")
  case True
  assume "\<bar>x\<bar> < 256"
  then have "\<lfloor>\<bar>x\<bar>\<rfloor> < 256" by (simp add: floor_less_iff)
  then have "bitlen \<lfloor>\<bar>x\<bar>\<rfloor> \<le> 8" by (rule bitlen_le8)
  with True show ?thesis by (simp add: expo_def)
next
  case False
  have "0 \<le> bitlen (\<lceil>1 / \<bar>x\<bar>\<rceil> - 1)" by (rule bitlen_nonneg)
  with False show ?thesis by (simp add: expo_def)
qed

lemma f64_round_err:
  assumes "\<bar>x\<bar> < 256"
  shows "\<bar>f64_round x - x\<bar> \<le> 1 / 2 ^ 46"
proof (cases "x = 0")
  case True
  then show ?thesis by (simp add: f64_round_def)
next
  case False
  define u where "u = pow2 (max (expo x) (- 1022) - 52)"
  have upos: "0 < u" by (simp add: u_def pow2_pos)
  have "max (expo x) (- 1022) - 52 \<le> - 45" using expo_le7 [OF assms] by simp
  then have "u \<le> pow2 (- 45)" unfolding u_def by (rule pow2_mono)
  then have ule: "u \<le> 1 / 2 ^ 45" by (simp add: pow2_def)
  have "\<bar>of_int (rne (x / u)) - x / u\<bar> \<le> 1 / 2" by (rule rne_err)
  then have "\<bar>of_int (rne (x / u)) - x / u\<bar> * u \<le> 1 / 2 * u"
    using upos by (simp add: mult_right_mono)
  moreover have "\<bar>of_int (rne (x / u)) - x / u\<bar> * u = \<bar>of_int (rne (x / u)) * u - x\<bar>"
  proof -
    have "\<bar>of_int (rne (x / u)) - x / u\<bar> * u = \<bar>(of_int (rne (x / u)) - x / u) * u\<bar>"
      using upos by (simp add: abs_mult)
    also have "(of_int (rne (x / u)) - x / u) * u = of_int (rne (x / u)) * u - x"
      using upos by (simp add: left_diff_distrib)
    finally show ?thesis .
  qed
  ultimately have "\<bar>of_int (rne (x / u)) * u - x\<bar> \<le> 1 / 2 * u" by simp
  moreover have "f64_round x = of_int (rne (x / u)) * u"
    using False by (simp add: f64_round_def u_def Let_def)
  ultimately show ?thesis using ule by simp
qed

lemma blend_real_err:
  fixes B P A :: nat
  assumes B: "B \<le> 255" and P: "P \<le> 255" and A: "A \<le> 255"
  defines "al \<equiv> f64_div (of_nat A) 255"
  defines "E \<equiv> of_nat B * (1 - of_nat A / 255) + of_nat P * (of_nat A / 255) :: rat"
  defines "s \<equiv> f64_add (f64_mul (of_nat B) (f64_sub 1 al)) (f64_mul (of_nat P) al)"
  shows "\<bar>s - E\<bar> \<le> 768 / 2 ^ 46"
proof -
  define d :: rat where "d = 1 / 2 ^ 46"
  have dval: "d = 1 / 70368744177664" by (simp add: d_def)
  have rd: "\<bar>f64_round x - x\<bar> \<le> d" if "\<bar>x\<bar> < 256" for x
    unfolding d_def using that by (rule f64_round_err)
  define \<alpha> :: rat where "\<alpha> = of_nat A / 255"
  define b :: rat where "b = of_nat B"
  define p :: rat where "p = of_nat P"
  have \<alpha>: "0 \<le> \<alpha>" "\<alpha> \<le> 1" using A by (simp_all add: \<alpha>_def)
  have b: "0 \<le> b" "b \<le> 255" and p: "0 \<le> p" "p \<le> 255"
    using B P by (simp_all add: b_def p_def)
  have "\<bar>\<alpha>\<bar> < 256" using \<alpha> by linarith
  from rd [OF this] have 1: "\<bar>al - \<alpha>\<bar> \<le> d"
    by (simp add: al_def f64_div_def \<alpha>_def)
  define g where "g = f64_sub 1 al"
  have "\<bar>1 - al\<bar> < 256" using 1 \<alpha> dval by linarith
  from rd [OF this] have "\<bar>g - (1 - al)\<bar> \<le> d"
    by (simp add: g_def f64_sub_def)
  with 1 have 2: "\<bar>g - (1 - \<alpha>)\<bar> \<le> 2 * d" by linarith
  define m1 where "m1 = b * (1 - \<alpha>)"
  define m2 where "m2 = p * \<alpha>"
  define n1 where "n1 = b * g"
  define n2 where "n2 = p * al"
  have "\<bar>n1 - m1\<bar> = b * \<bar>g - (1 - \<alpha>)\<bar>"
    using b(1) by (simp add: n1_def m1_def right_diff_distrib [symmetric] abs_mult)
  also have "\<dots> \<le> 255 * (2 * d)"
    using b 2 by (intro mult_mono) simp_all
  finally have 3: "\<bar>n1 - m1\<bar> \<le> 510 * d" by simp
  have nn: "0 \<le> 1 - \<alpha>" using \<alpha> by linarith
  have r1: "0 \<le> m1" "m1 \<le> 255 - 255 * \<alpha>"
  proof -
    show "0 \<le> m1"
      unfolding m1_def using b(1) nn by (rule mult_nonneg_nonneg)
    have "m1 \<le> 255 * (1 - \<alpha>)"
      unfolding m1_def using b(2) nn by (rule mult_right_mono)
    then show "m1 \<le> 255 - 255 * \<alpha>" by (simp add: algebra_simps)
  qed
  define t1 where "t1 = f64_mul b g"
  have "\<bar>n1\<bar> < 256" using 3 r1 \<alpha> dval by linarith
  from rd [OF this] have "\<bar>t1 - n1\<bar> \<le> d"
    by (simp add: t1_def f64_mul_def n1_def)
  with 3 have 4: "\<bar>t1 - m1\<bar> \<le> 511 * d" by linarith
  have "\<bar>n2 - m2\<bar> = p * \<bar>al - \<alpha>\<bar>"
    using p(1) by (simp add: n2_def m2_def right_diff_distrib [symmetric] abs_mult)
  also have "\<dots> \<le> 255 * d"
    using p 1 by (intro mult_mono) simp_all
  finally have 5: "\<bar>n2 - m2\<bar> \<le> 255 * d" .
  have r2: "0 \<le> m2" "m2 \<le> 255 * \<alpha>"
  proof -
    show "0 \<le> m2"
      unfolding m2_def using p(1) \<alpha>(1) by (rule mult_nonneg_nonneg)
    show "m2 \<le> 255 * \<alpha>"
      unfolding m2_def using p(2) \<alpha>(1) by (rule mult_right_mono)
  qed
  define t2 where "t2 = f64_mul p al"
  have "\<bar>n2\<bar> < 256" using 5 r2 \<alpha> dval by linarith
  from rd [OF this] have "\<bar>t2 - n2\<bar> \<le> d"
    by (simp add: t2_def f64_mul_def n2_def)
  with 5 have 6: "\<bar>t2 - m2\<bar> \<le> 256 * d" by linarith
  have Eeq: "E = m1 + m2" by (simp add: E_def \<alpha>_def m1_def m2_def b_def p_def)
  from 4 6 have 7: "\<bar>(t1 + t2) - E\<bar> \<le> 767 * d" unfolding Eeq by linarith
  have Er: "0 \<le> E" "E \<le> 255" unfolding Eeq using r1 r2 by linarith+
  have "\<bar>t1 + t2\<bar> < 256" using 7 Er dval by linarith
  from rd [OF this] have "\<bar>f64_add t1 t2 - (t1 + t2)\<bar> \<le> d"
    by (simp add: f64_add_def)
  with 7 have "\<bar>f64_add t1 t2 - E\<bar> \<le> 768 * d" by linarith
  then show ?thesis by (simp add: s_def t1_def t2_def g_def d_def b_def p_def)
qed

lemma trunc_near_grid:
  fixes s :: rat and m :: int
  assumes near: "\<bar>s - of_int m / 255\<bar> \<le> 768 / 2 ^ 46" and m0: "0 \<le> m" and m1: "m \<le> 255 * 255"
  defines "r \<equiv> (if 0 \<le> s then \<lfloor>s\<rfloor> else \<lceil>s\<rceil>)"
  shows "0 \<le> r \<and> r \<le> 255 \<and> \<bar>of_int r - (of_int m / 255 :: rat)\<bar> \<le> 1"
proof -
  define E :: rat where "E = of_int m / 255"
  have E: "0 \<le> E" "E \<le> 255" using m0 m1 by (simp_all add: E_def)
  have eps: "(768 :: rat) / 2 ^ 46 = 3 / 274877906944" by simp
  from near have s: "E - 3 / 274877906944 \<le> s" "s \<le> E + 3 / 274877906944"
    unfolding E_def [symmetric] eps by linarith+
  have lo: "of_int r > s - 1" and hi: "of_int r \<le> max s 0"
    unfolding r_def by (auto simp: max_def) linarith+
  have r0: "0 \<le> r"
  proof (cases "0 \<le> s")
    case True
    then have "0 \<le> \<lfloor>s\<rfloor>" by simp
    then show ?thesis using True by (simp add: r_def)
  next
    case False
    have "- 1 < s" using s E by linarith
    then have "0 \<le> \<lceil>s\<rceil>" by (simp add: zero_le_ceiling)
    then show ?thesis using False by (simp add: r_def)
  qed
  have r255: "r \<le> 255"
  proof -
    have "of_int r < (256 :: rat)" using hi s E by (auto simp: max_def split: if_splits)
    then have "r < 256" by (metis of_int_less_iff of_int_numeral)
    then show ?thesis by simp
  qed
  have up: "of_int r - E \<le> 1" using hi s E by (auto simp: max_def split: if_splits)
  have "of_int r > E - 3 / 274877906944 - 1" using lo s by linarith
  then have "255 * of_int r > 255 * E - 256" by linarith
  then have "(of_int (255 * r) :: rat) > of_int (m - 256)" by (simp add: E_def)
  then have "255 * r > m - 256" by (simp only: of_int_less_iff)
  then have "255 * r \<ge> m - 255" by linarith
  then have "(of_int (255 * r) :: rat) \<ge> of_int (m - 255)" by (simp only: of_int_le_iff)
  then have "of_int r \<ge> E - 1" by (simp add: E_def)
  with up r0 r255 show ?thesis unfolding E_def by linarith
qed

lemma unat_le_255: "unat (w :: 8 word) \<le> 255"
  using unsigned_less [of w, where 'a = nat] by simp

lemma blend_value_tolerance:
  fixes b a p :: "8 word"
  shows "\<bar>of_nat (unat (blend_value b (alpha_value a) p))
          - (of_nat (unat b) * (1 - of_nat (unat a) / 255)
             + of_nat (unat p) * (of_nat (unat a) / 255))\<bar> \<le> (1 :: rat)"
proof -
  define B where "B = unat b"
  define A where "A = unat a"
  define P where "P = unat p"
  have le: "B \<le> 255" "A \<le> 255" "P \<le> 255"
    by (simp_all add: B_def A_def P_def unat_le_255)
  define s where "s = f64_add (f64_mul (of_nat B) (f64_sub 1 (f64_div (of_nat A) 255)))
                               (f64_mul (of_nat P) (f64_div (of_nat A) 255))"
  define E :: rat where "E = of_nat B * (1 - of_nat A / 255) + of_nat P * (of_nat A / 255)"
  define m :: int where "m = int B * (255 - int A) + int P * int A"
  have near: "\<bar>s - E\<bar> \<le> 768 / 2 ^ 46"
    unfolding s_def E_def using le by (intro blend_real_err) simp_all
  have Em: "E = of_int m / 255"
    by (simp add: E_def m_def field_simps)
  have m0: "0 \<le> m" using le by (simp add: m_def)
  have "int B * (255 - int A) \<le> 255 * (255 - int A)"
    using le by (intro mult_right_mono) simp_all
  moreover have "int P * int A \<le> 255 * int A"
    using le by (intro mult_right_mono) simp_all
  ultimately have m1: "m \<le> 255 * 255" by (simp add: m_def)
  define r where "r = (if 0 \<le> s then \<lfloor>s\<rfloor> else \<lceil>s\<rceil>)"
  from trunc_near_grid [OF near [unfolded Em] m0 m1]
  have r: "0 \<le> r" "r \<le> 255" "\<bar>of_int r - (of_int m / 255 :: rat)\<bar> \<le> 1"
    by (simp_all add: r_def)
  have "blend_value b (alpha_value a) p = word_of_int r"
    by (simp add: blend_value_def alpha_value_def astype_uint8_def r_def s_def B_def A_def P_def)
  moreover have "unat (word_of_int r :: 8 word) = nat r"
    using r(1,2) by (simp add: unat_eq_nat_uint uint_word_of_int)
  ultimately have "(of_nat (unat (blend_value b (alpha_value a) p)) :: rat) = of_int r"
    using r(1) by simp
  with r(3) show ?thesis
    unfolding Em [symmetric] E_def B_def A_def P_def by simp
qed

section \<open>The compositor on the store and on the arrays\<close>

lemma blend_channels_local:
  assumes "bg < length h"
  shows "blend_channels cs bg p alpha h =
     (case blend_channels_img (p = bg) cs (h ! bg) (h ! p) alpha of
        Inl e \<Rightarrow> Inl e | Inr img \<Rightarrow> Inr (h[bg := img]))"
  using assms
proof (induction cs arbitrary: h)
  case Nil
  then show ?case by simp
next
  case (Cons c cs)
  show ?case
  proof (cases "blend_expr c (h ! bg) (h ! p) alpha")
    case (Inl e)
    then show ?thesis by (simp add: blend_channel_def)
  next
    case (Inr s)
    show ?thesis
    proof (cases "assign_channel (h ! bg) c s")
      case (Inl e)
      with Inr show ?thesis by (simp add: blend_channel_def)
    next
      case ac: (Inr B')
      have len: "bg < length (h[bg := B'])" using Cons.prems by simp
      show ?thesis
        using Inr ac Cons.prems Cons.IH [OF len]
        by (auto simp: blend_channel_def nth_list_update split: sum.splits)
    qed
  qed
qed

lemma bidx_in_range: "i < n \<Longrightarrow> bidx n i = i"
  by (auto simp: bidx_def)

lemma bidx_idem: "bidx n (bidx n i) = bidx n i"
  by (auto simp: bidx_def)

lemma blend_step:
  assumes "c < chans B" "c < chans P" "height P = height B" "width P = width B"
    "ph alpha = height B" "pw alpha = width B"
  shows "\<exists>s B'. blend_expr c B P alpha = Inr s \<and> assign_channel B c s = Inr B'
     \<and> height B' = height B \<and> width B' = width B \<and> chans B' = chans B
     \<and> (\<forall>y x ch. ch \<noteq> c \<longrightarrow> px B' y x ch = px B y x ch)
     \<and> (\<forall>y x. y < height B \<longrightarrow> x < width B \<longrightarrow>
           px B' y x c = blend_value (px B y x c) (pv alpha y x) (px P y x c))"
  using assms
  by (simp add: blend_expr_def chan_plane_def broadcast2_def bcast_dim_def plane_map_def
      assign_channel_def blend_value_def bidx_idem bidx_in_range)

lemma blend_channels_img_post:
  assumes "distinct cs" "\<forall>c\<in>set cs. c < chans B \<and> c < chans P"
    "height P = height B" "width P = width B" "ph alpha = height B" "pw alpha = width B"
    "aliased \<Longrightarrow> chans P = chans B \<and> (\<forall>y x c. c \<in> set cs \<longrightarrow> px P y x c = px B y x c)"
  shows "\<exists>img. blend_channels_img aliased cs B P alpha = Inr img
     \<and> height img = height B \<and> width img = width B \<and> chans img = chans B
     \<and> (\<forall>y x c. c \<notin> set cs \<longrightarrow> px img y x c = px B y x c)
     \<and> (\<forall>y x c. y < height B \<longrightarrow> x < width B \<longrightarrow> c \<in> set cs \<longrightarrow>
           px img y x c = blend_value (px B y x c) (pv alpha y x) (px P y x c))"
  using assms
proof (induction cs arbitrary: B P)
  case Nil
  then show ?case by simp
next
  case (Cons c cs)
  have c: "c < chans B" "c < chans P" "c \<notin> set cs" "distinct cs"
    using Cons.prems(1,2) by auto
  from blend_step [OF c(1,2) Cons.prems(3-6)]
  obtain s B' where st: "blend_expr c B P alpha = Inr s" "assign_channel B c s = Inr B'"
    "height B' = height B" "width B' = width B" "chans B' = chans B"
    "\<And>y x ch. ch \<noteq> c \<Longrightarrow> px B' y x ch = px B y x ch"
    "\<And>y x. y < height B \<Longrightarrow> x < width B \<Longrightarrow>
           px B' y x c = blend_value (px B y x c) (pv alpha y x) (px P y x c)"
    by blast
  define P' where "P' = (if aliased then B' else P)"
  have P'shape: "height P' = height B'" "width P' = width B'"
    using st(3,4) Cons.prems(3,4) by (auto simp: P'_def)
  have P'ch: "\<forall>c'\<in>set cs. c' < chans B' \<and> c' < chans P'"
    using Cons.prems(2) st(5) by (auto simp: P'_def)
  have al: "ph alpha = height B'" "pw alpha = width B'"
    using Cons.prems(5,6) st(3,4) by simp_all
  have aliased': "aliased \<Longrightarrow> chans P' = chans B' \<and> (\<forall>y x c. c \<in> set cs \<longrightarrow> px P' y x c = px B' y x c)"
    by (simp add: P'_def)
  from Cons.IH [OF c(4) P'ch P'shape al aliased']
  obtain img where img: "blend_channels_img aliased cs B' P' alpha = Inr img"
    "height img = height B'" "width img = width B'" "chans img = chans B'"
    "\<And>y x c. c \<notin> set cs \<Longrightarrow> px img y x c = px B' y x c"
    "\<And>y x c. y < height B' \<Longrightarrow> x < width B' \<Longrightarrow> c \<in> set cs \<Longrightarrow>
           px img y x c = blend_value (px B' y x c) (pv alpha y x) (px P' y x c)"
    by blast
  have P'px: "px P' y x c' = px P y x c'" if "c' \<in> set cs" for y x c'
  proof (cases aliased)
    case True
    have "c' \<noteq> c" using that c(3) by auto
    then have "px B' y x c' = px B y x c'" by (rule st(6))
    moreover have "px P y x c' = px B y x c'" using Cons.prems(7) [OF True] that by simp
    ultimately show ?thesis using True by (simp add: P'_def)
  next
    case False
    then show ?thesis by (simp add: P'_def)
  qed
  have res: "blend_channels_img aliased (c # cs) B P alpha = Inr img"
    using st(1,2) img(1) by (simp add: P'_def)
  have out: "px img y x c' = px B y x c'" if "c' \<notin> set (c # cs)" for y x c'
    using that img(5) [of c' y x] st(6) [of c' y x] by simp
  have inn: "px img y x c' = blend_value (px B y x c') (pv alpha y x) (px P y x c')"
    if "y < height B" "x < width B" "c' \<in> set (c # cs)" for y x c'
  proof (cases "c' = c")
    case True
    then show ?thesis using img(5) [of c y x] c(3) st(7) [OF that(1,2)] by simp
  next
    case False
    then have mem: "c' \<in> set cs" using that(3) by simp
    show ?thesis
      using img(6) [of y x c'] that(1,2) mem st(3,4) st(6) [OF False] P'px [OF mem] by simp
  qed
  have "height img = height B" "width img = width B" "chans img = chans B"
    using img(2-4) st(3-5) by simp_all
  with res out inn show ?case
    by (intro exI [of _ img] conjI allI impI) assumption+
qed

lemma blend_step_fail:
  assumes "0 < chans B" "0 < chans P" "ph alpha = height P" "pw alpha = width P"
    and "\<not> ((height P = height B \<or> height P = 1) \<and> (width P = width B \<or> width P = 1))"
  shows "(case blend_expr 0 B P alpha of Inl e \<Rightarrow> Inl e | Inr s \<Rightarrow> assign_channel B 0 s)
         = Inl ValueError"
  using assms
  by (auto simp: blend_expr_def chan_plane_def broadcast2_def bcast_dim_def plane_map_def
      assign_channel_def split: if_splits)

lemma overlay_post3:
  assumes b: "background < length h" and p: "product_img < length h"
    and c3: "chans (h ! background) = 3" and c4: "4 \<le> chans (h ! product_img)"
    and dims: "height (h ! product_img) = height (h ! background)"
      "width (h ! product_img) = width (h ! background)"
    and ne: "0 < height (h ! background)" "0 < width (h ! background)"
  shows "\<exists>img. overlay_product_simple h background product_img = Inr (length h, h @ [img])
     \<and> height img = height (h ! background) \<and> width img = width (h ! background)
     \<and> chans img = 4
     \<and> (\<forall>y x. px img y x 3 = 255)
     \<and> (\<forall>y x c. y < height (h ! background) \<longrightarrow> x < width (h ! background) \<longrightarrow> c < 3 \<longrightarrow>
           px img y x c = blend_value (px (h ! background) y x c)
             (alpha_value (px (h ! product_img) y x 3)) (px (h ! product_img) y x c))"
proof -
  define B where "B = h ! background"
  define P where "P = h ! product_img"
  define B1 where "B1 = B\<lparr>chans := 4, px := \<lambda>y x c. if c = 3 then 255 else px B y x c\<rparr>"
  define h1 where "h1 = h @ [B1]"
  define alpha where "alpha = plane_map (\<lambda>v. f64_div v 255)
     \<lparr>ph = height P, pw = width P, pv = \<lambda>y x. of_nat (unat (px P y x 3))\<rparr>"
  have cvt: "cvtColor_BGR2BGRA h background = Inr (length h, h1)"
    unfolding h1_def B1_def B_def
    using ne by (simp add: cvtColor_BGR2BGRA_def alloc_def Let_def)
  have h1p: "h1 ! product_img = P" "h1 ! length h = B1"
    using p by (simp_all add: h1_def P_def nth_append)
  have cp: "chan_plane P 3 = Inr \<lparr>ph = height P, pw = width P, pv = \<lambda>y x. of_nat (unat (px P y x 3))\<rparr>"
    using c4 by (simp add: chan_plane_def P_def)
  have neq: "product_img \<noteq> length h" using p by simp
  have "\<exists>img. blend_channels_img False [0, 1, 2] B1 P alpha = Inr img
     \<and> height img = height B1 \<and> width img = width B1 \<and> chans img = chans B1
     \<and> (\<forall>y x c. c \<notin> set [0, 1, 2] \<longrightarrow> px img y x c = px B1 y x c)
     \<and> (\<forall>y x c. y < height B1 \<longrightarrow> x < width B1 \<longrightarrow> c \<in> set [0, 1, 2] \<longrightarrow>
           px img y x c = blend_value (px B1 y x c) (pv alpha y x) (px P y x c))"
    using c4 dims
    by (intro blend_channels_img_post) (simp_all add: B1_def alpha_def plane_map_def P_def B_def)
  then obtain img where img: "blend_channels_img False [0, 1, 2] B1 P alpha = Inr img"
    "height img = height B1" "width img = width B1" "chans img = chans B1"
    "\<And>y x c. c \<notin> set [0, 1, 2] \<Longrightarrow> px img y x c = px B1 y x c"
    "\<And>y x c. y < height B1 \<Longrightarrow> x < width B1 \<Longrightarrow> c \<in> set [0, 1, 2] \<Longrightarrow>
           px img y x c = blend_value (px B1 y x c) (pv alpha y x) (px P y x c)"
    by blast
  have bc: "blend_channels [0, 1, 2] (length h) product_img alpha h1 = Inr (h @ [img])"
    using blend_channels_local [of "length h" h1 "[0, 1, 2]" product_img alpha] img(1) neq
    by (simp add: h1p) (simp add: h1_def)
  have res: "overlay_product_simple h background product_img = Inr (length h, h @ [img])"
    unfolding overlay_product_simple_def
    using c3 cvt cp bc by (simp add: h1p alpha_def)
  have a3: "px img y x 3 = 255" for y x
    using img(5) [of 3 y x] by (simp add: B1_def)
  have blend: "px img y x c = blend_value (px B y x c) (alpha_value (px P y x 3)) (px P y x c)"
    if "y < height B" "x < width B" "c < 3" for y x c
  proof -
    have "c \<in> set [0, 1, 2]" using that(3) by auto
    from img(6) [OF _ _ this, of y x] that
    show ?thesis by (auto simp: B1_def alpha_def plane_map_def alpha_value_def)
  qed
  have "height img = height B" "width img = width B" "chans img = 4"
    using img(2-4) by (simp_all add: B1_def)
  with res a3 blend show ?thesis
    unfolding B_def P_def
    by (intro exI [of _ img] conjI allI impI) assumption+
qed

lemma overlay_post4:
  assumes b: "background < length h" and p: "product_img < length h"
    and c3: "4 \<le> chans (h ! background)" and c4: "4 \<le> chans (h ! product_img)"
    and dims: "height (h ! product_img) = height (h ! background)"
      "width (h ! product_img) = width (h ! background)"
  shows "\<exists>img. overlay_product_simple h background product_img = Inr (background, h[background := img])
     \<and> height img = height (h ! background) \<and> width img = width (h ! background)
     \<and> chans img = chans (h ! background)
     \<and> (\<forall>y x c. 3 \<le> c \<longrightarrow> px img y x c = px (h ! background) y x c)
     \<and> (\<forall>y x c. y < height (h ! background) \<longrightarrow> x < width (h ! background) \<longrightarrow> c < 3 \<longrightarrow>
           px img y x c = blend_value (px (h ! background) y x c)
             (alpha_value (px (h ! product_img) y x 3)) (px (h ! product_img) y x c))"
proof -
  define B where "B = h ! background"
  define P where "P = h ! product_img"
  define alpha where "alpha = plane_map (\<lambda>v. f64_div v 255)
     \<lparr>ph = height P, pw = width P, pv = \<lambda>y x. of_nat (unat (px P y x 3))\<rparr>"
  have cp: "chan_plane P 3 = Inr \<lparr>ph = height P, pw = width P, pv = \<lambda>y x. of_nat (unat (px P y x 3))\<rparr>"
    using c4 by (simp add: chan_plane_def P_def)
  have al: "product_img = background \<Longrightarrow> P = B" by (simp add: P_def B_def)
  have "\<exists>img. blend_channels_img (product_img = background) [0, 1, 2] B P alpha = Inr img
     \<and> height img = height B \<and> width img = width B \<and> chans img = chans B
     \<and> (\<forall>y x c. c \<notin> set [0, 1, 2] \<longrightarrow> px img y x c = px B y x c)
     \<and> (\<forall>y x c. y < height B \<longrightarrow> x < width B \<longrightarrow> c \<in> set [0, 1, 2] \<longrightarrow>
           px img y x c = blend_value (px B y x c) (pv alpha y x) (px P y x c))"
    using c3 c4 dims al
    by (intro blend_channels_img_post) (auto simp: alpha_def plane_map_def P_def B_def)
  then obtain img where img: "blend_channels_img (product_img = background) [0, 1, 2] B P alpha = Inr img"
    "height img = height B" "width img = width B" "chans img = chans B"
    "\<And>y x c. c \<notin> set [0, 1, 2] \<Longrightarrow> px img y x c = px B y x c"
    "\<And>y x c. y < height B \<Longrightarrow> x < width B \<Longrightarrow> c \<in> set [0, 1, 2] \<Longrightarrow>
           px img y x c = blend_value (px B y x c) (pv alpha y x) (px P y x c)"
    by blast
  have bc: "blend_channels [0, 1, 2] background product_img alpha h = Inr (h[background := img])"
    using blend_channels_local [OF b, of "[0, 1, 2]" product_img alpha] img(1)
    by (simp add: B_def P_def)
  have res: "overlay_product_simple h background product_img = Inr (background, h[background := img])"
    unfolding overlay_product_simple_def
    using c3 cp bc by (simp add: alpha_def P_def)
  have keep: "px img y x c = px B y x c" if "3 \<le> c" for y x c
    using img(5) [of c y x] that by auto
  have blend: "px img y x c = blend_value (px B y x c) (alpha_value (px P y x 3)) (px P y x c)"
    if "y < height B" "x < width B" "c < 3" for y x c
  proof -
    have "c \<in> set [0, 1, 2]" using that(3) by auto
    from img(6) [OF that(1,2) this]
    show ?thesis by (auto simp: alpha_def plane_map_def alpha_value_def)
  qed
  from res img(2-4) keep blend show ?thesis
    unfolding B_def P_def
    by (intro exI [of _ img] conjI allI impI) assumption+
qed

lemma blend_channel_fail:
  assumes "(case blend_expr c (h ! bg) (h ! p) alpha of Inl e \<Rightarrow> Inl e
            | Inr s \<Rightarrow> assign_channel (h ! bg) c s) = Inl e"
  shows "blend_channel c bg p alpha h = Inl e"
  using assms by (auto simp: blend_channel_def split: sum.splits)

lemma overlay_not_broadcastable:
  assumes b: "background < length h" and p: "product_img < length h"
    and c3: "3 \<le> chans (h ! background)" and c4: "4 \<le> chans (h ! product_img)"
    and ne: "0 < height (h ! background)" "0 < width (h ! background)"
    and nb: "\<not> ((height (h ! product_img) = height (h ! background) \<or> height (h ! product_img) = 1)
             \<and> (width (h ! product_img) = width (h ! background) \<or> width (h ! product_img) = 1))"
  shows "overlay_product_simple h background product_img = Inl ValueError"
proof -
  define P where "P = h ! product_img"
  define alpha where "alpha = plane_map (\<lambda>v. f64_div v 255)
     \<lparr>ph = height P, pw = width P, pv = \<lambda>y x. of_nat (unat (px P y x 3))\<rparr>"
  have cp: "chan_plane P 3 = Inr \<lparr>ph = height P, pw = width P, pv = \<lambda>y x. of_nat (unat (px P y x 3))\<rparr>"
    using c4 by (simp add: chan_plane_def P_def)
  have ash: "ph alpha = height P" "pw alpha = width P"
    by (simp_all add: alpha_def plane_map_def)
  show ?thesis
  proof (cases "chans (h ! background) = 3")
    case True
    define B1 where "B1 = (h ! background)\<lparr>chans := 4,
      px := \<lambda>y x c. if c = 3 then 255 else px (h ! background) y x c\<rparr>"
    define h1 where "h1 = h @ [B1]"
    have cvt: "cvtColor_BGR2BGRA h background = Inr (length h, h1)"
      unfolding h1_def B1_def
      using ne by (simp add: cvtColor_BGR2BGRA_def alloc_def Let_def)
    have h1p: "h1 ! product_img = P" "h1 ! length h = B1"
      using p by (simp_all add: h1_def P_def nth_append)
    have "(case blend_expr 0 B1 P alpha of Inl e \<Rightarrow> Inl e | Inr s \<Rightarrow> assign_channel B1 0 s)
         = Inl ValueError"
      using c4 nb ash by (intro blend_step_fail) (simp_all add: B1_def P_def)
    then have "blend_channel 0 (length h) product_img alpha h1 = Inl ValueError"
      unfolding h1p [symmetric] by (rule blend_channel_fail)
    then show ?thesis
      unfolding overlay_product_simple_def
      using True cvt cp by (simp add: h1p alpha_def)
  next
    case False
    have "(case blend_expr 0 (h ! background) P alpha of Inl e \<Rightarrow> Inl e
           | Inr s \<Rightarrow> assign_channel (h ! background) 0 s) = Inl ValueError"
      using c3 c4 nb ash by (intro blend_step_fail) (simp_all add: P_def)
    then have "blend_channel 0 background product_img alpha h = Inl ValueError"
      unfolding P_def by (rule blend_channel_fail)
    then show ?thesis
      unfolding overlay_product_simple_def
      using False cp by (simp add: alpha_def P_def)
  qed
qed

section \<open>Alpha Compositor: the blend\<close>

text \<open>
  Claim C1. For a background of three (or more) channels and a product image with an
  alpha channel, both of the same non-empty size, \<open>overlay_product_simple\<close> returns an
  array of that size in which every colour channel \<open>c < 3\<close> of every pixel is within 1
  of \<open>background * (1 - a) + product * a\<close>, where \<open>a\<close> is the product's alpha byte at
  that pixel divided by 255. The bound accounts for the five roundings of the
  \<open>float64\<close> arithmetic and for the truncation of the store into \<open>uint8\<close>.
\<close>

theorem compositor_blend_within_one:
  assumes "background < length h" and "product_img < length h"
    and "3 \<le> chans (h ! background)" and "4 \<le> chans (h ! product_img)"
    and "height (h ! product_img) = height (h ! background)"
    and "width (h ! product_img) = width (h ! background)"
    and "0 < height (h ! background)" and "0 < width (h ! background)"
  shows "\<exists>r h'. overlay_product_simple h background product_img = Inr (r, h')
     \<and> height (h' ! r) = height (h ! background) \<and> width (h' ! r) = width (h ! background)
     \<and> (\<forall>y x c. y < height (h ! background) \<longrightarrow> x < width (h ! background) \<longrightarrow> c < 3 \<longrightarrow>
          \<bar>of_nat (unat (px (h' ! r) y x c))
            - (of_nat (unat (px (h ! background) y x c))
                 * (1 - of_nat (unat (px (h ! product_img) y x 3)) / 255)
               + of_nat (unat (px (h ! product_img) y x c))
                 * (of_nat (unat (px (h ! product_img) y x 3)) / 255))\<bar> \<le> (1 :: rat))"
proof -
  let ?B = "h ! background" and ?P = "h ! product_img"
  have "\<exists>r h' img. overlay_product_simple h background product_img = Inr (r, h') \<and> h' ! r = img
     \<and> height img = height ?B \<and> width img = width ?B
     \<and> (\<forall>y x c. y < height ?B \<longrightarrow> x < width ?B \<longrightarrow> c < 3 \<longrightarrow>
           px img y x c = blend_value (px ?B y x c) (alpha_value (px ?P y x 3)) (px ?P y x c))"
  proof (cases "chans ?B = 3")
    case True
    from overlay_post3 [OF assms(1,2) True assms(4-8)]
    obtain img where "overlay_product_simple h background product_img = Inr (length h, h @ [img])"
      "height img = height ?B" "width img = width ?B"
      "\<forall>y x c. y < height ?B \<longrightarrow> x < width ?B \<longrightarrow> c < 3 \<longrightarrow>
           px img y x c = blend_value (px ?B y x c) (alpha_value (px ?P y x 3)) (px ?P y x c)"
      by blast
    then show ?thesis
      by (intro exI [of _ "length h"] exI [of _ "h @ [img]"] exI [of _ img]) simp
  next
    case False
    with assms(3) have c4: "4 \<le> chans ?B" by simp
    from overlay_post4 [OF assms(1,2) c4 assms(4-6)]
    obtain img where "overlay_product_simple h background product_img = Inr (background, h[background := img])"
      "height img = height ?B" "width img = width ?B"
      "\<forall>y x c. y < height ?B \<longrightarrow> x < width ?B \<longrightarrow> c < 3 \<longrightarrow>
           px img y x c = blend_value (px ?B y x c) (alpha_value (px ?P y x 3)) (px ?P y x c)"
      by blast
    then show ?thesis
      using assms(1)
      by (intro exI [of _ background] exI [of _ "h[background := img]"] exI [of _ img]) simp
  qed
  then obtain r h' where res: "overlay_product_simple h background product_img = Inr (r, h')"
    "height (h' ! r) = height ?B" "width (h' ! r) = width ?B"
    and val: "\<And>y x c. y < height ?B \<Longrightarrow> x < width ?B \<Longrightarrow> c < 3 \<Longrightarrow>
       px (h' ! r) y x c = blend_value (px ?B y x c) (alpha_value (px ?P y x 3)) (px ?P y x c)"
    by blast
  have "\<bar>of_nat (unat (px (h' ! r) y x c))
            - (of_nat (unat (px ?B y x c)) * (1 - of_nat (unat (px ?P y x 3)) / 255)
               + of_nat (unat (px ?P y x c)) * (of_nat (unat (px ?P y x 3)) / 255))\<bar> \<le> (1 :: rat)"
    if "y < height ?B" "x < width ?B" "c < 3" for y x c
    unfolding val [OF that] by (rule blend_value_tolerance)
  with res show ?thesis by blast
qed

theorem compositor_blend_within_one_witness:
  "\<exists>r h'. overlay_product_simple [solid 1 1 3 255, cutout 1 1 255 43] 0 1 = Inr (r, h')
     \<and> height (h' ! r) = 1 \<and> width (h' ! r) = 1
     \<and> \<bar>of_nat (unat (px (h' ! r) 0 0 0)) - ((255 :: rat) * (1 - 43 / 255) + 255 * (43 / 255))\<bar> \<le> 1"
proof -
  let ?h = "[solid 1 1 3 255, cutout 1 1 255 43]"
  have hyp: "(0 :: nat) < length ?h" "(1 :: nat) < length ?h" "3 \<le> chans (?h ! 0)" "4 \<le> chans (?h ! 1)"
    "height (?h ! 1) = height (?h ! 0)" "width (?h ! 1) = width (?h ! 0)"
    "0 < height (?h ! 0)" "0 < width (?h ! 0)"
    by (simp_all add: solid_def cutout_def)
  from compositor_blend_within_one [OF hyp]
  obtain r h' where res: "overlay_product_simple ?h 0 1 = Inr (r, h')"
    "height (h' ! r) = height (?h ! 0)" "width (h' ! r) = width (?h ! 0)"
    and tol: "\<And>y x c. y < height (?h ! 0) \<Longrightarrow> x < width (?h ! 0) \<Longrightarrow> c < 3 \<Longrightarrow>
          \<bar>of_nat (unat (px (h' ! r) y x c))
            - (of_nat (unat (px (?h ! 0) y x c)) * (1 - of_nat (unat (px (?h ! 1) y x 3)) / 255)
               + of_nat (unat (px (?h ! 1) y x c)) * (of_nat (unat (px (?h ! 1) y x 3)) / 255))\<bar>
          \<le> (1 :: rat)"
    by blast
  have "\<bar>of_nat (unat (px (h' ! r) 0 0 0)) - ((255 :: rat) * (1 - 43 / 255) + 255 * (43 / 255))\<bar> \<le> 1"
    using tol [of 0 0 0] by (simp add: solid_def cutout_def px_const_def px_rgba_def)
  with res show ?thesis by (simp add: solid_def)
qed

text \<open>
  The bound 1 is attained: with background and product both 255 and an alpha byte of 43
  the \<open>float64\<close> sum is \<open>255 - 2\<^sup>-\<^sup>4\<^sup>5\<close>, which the store truncates to 254, while the
  exact value of the formula is 255.
\<close>

lemma blend_bound_attained: "blend_value 255 (alpha_value 43) 255 = 254"
  by code_simp

section \<open>Alpha Compositor: what is returned\<close>

text \<open>
  Claim C7, as amended. For a three-channel background and a four-channel product of
  the same non-empty size the result is a new array (the caller's arrays are left as
  they were) of four channels, not three: the background converted to BGRA. Its fourth
  channel is 255 at every pixel, so the result is fully opaque and the product's alpha
  does not appear in it. The reduction to three channels is done afterwards, by
  \<open>create_video_with_overlay\<close>.
\<close>

theorem compositor_returns_new_opaque_bgra:
  assumes "background < length h" and "product_img < length h"
    and "chans (h ! background) = 3" and "chans (h ! product_img) = 4"
    and "height (h ! product_img) = height (h ! background)"
    and "width (h ! product_img) = width (h ! background)"
    and "0 < height (h ! background)" and "0 < width (h ! background)"
  shows "\<exists>r h'. overlay_product_simple h background product_img = Inr (r, h')
     \<and> r = length h \<and> length h' = length h + 1
     \<and> (\<forall>q. q < length h \<longrightarrow> h' ! q = h ! q)
     \<and> chans (h' ! r) = 4
     \<and> (\<forall>y x. px (h' ! r) y x 3 = 255)"
proof -
  have c4: "4 \<le> chans (h ! product_img)" using assms(4) by simp
  from overlay_post3 [OF assms(1,2,3) c4 assms(5-8)]
  obtain img where "overlay_product_simple h background product_img = Inr (length h, h @ [img])"
    "chans img = 4" "\<forall>y x. px img y x 3 = 255"
    by blast
  then show ?thesis
    by (intro exI [of _ "length h"] exI [of _ "h @ [img]"]) (simp add: nth_append)
qed

theorem compositor_returns_new_opaque_bgra_witness:
  "\<exists>r h'. overlay_product_simple [solid 1 1 3 10, cutout 1 1 200 128] 0 1 = Inr (r, h')
     \<and> r = 2 \<and> length h' = 3 \<and> h' ! 0 = solid 1 1 3 10 \<and> h' ! 1 = cutout 1 1 200 128
     \<and> chans (h' ! r) = 4 \<and> px (h' ! r) 0 0 3 = 255"
proof -
  let ?h = "[solid 1 1 3 10, cutout 1 1 200 128]"
  have hyp: "(0 :: nat) < length ?h" "(1 :: nat) < length ?h" "chans (?h ! 0) = 3" "chans (?h ! 1) = 4"
    "height (?h ! 1) = height (?h ! 0)" "width (?h ! 1) = width (?h ! 0)"
    "0 < height (?h ! 0)" "0 < width (?h ! 0)"
    by (simp_all add: solid_def cutout_def)
  from compositor_returns_new_opaque_bgra [OF hyp]
  obtain r h' where "overlay_product_simple ?h 0 1 = Inr (r, h')" "r = length ?h"
    "length h' = length ?h + 1" "\<And>q. q < length ?h \<Longrightarrow> h' ! q = ?h ! q"
    "chans (h' ! r) = 4" "\<And>y x. px (h' ! r) y x 3 = 255"
    by blast
  then show ?thesis
    by (intro exI [of _ r] exI [of _ h']) simp
qed

text \<open>The claim as stated fails in the number of channels: the returned array has four.\<close>

theorem compositor_result_channels_counterexample:
  "result_shape (overlay_product_simple [solid 1 1 3 10, cutout 1 1 200 128] 0 1) = Inr (2, 1, 1, 4)"
  by (simp add: result_shape_def overlay_product_simple_def cvtColor_BGR2BGRA_def alloc_def
      chan_plane_def blend_channel_def blend_expr_def broadcast2_def bcast_dim_def plane_map_def
      assign_channel_def solid_def cutout_def Let_def)

text \<open>
  Claim C10. For a background that already has four channels no array is allocated:
  the returned reference is the one passed in, every other array of the store is
  unchanged, and the array itself has its three colour channels overwritten with the
  blended values while its fourth channel is kept.
\<close>

theorem compositor_blends_in_place:
  assumes "background < length h" and "product_img < length h"
    and "chans (h ! background) = 4" and "4 \<le> chans (h ! product_img)"
    and "height (h ! product_img) = height (h ! background)"
    and "width (h ! product_img) = width (h ! background)"
  shows "\<exists>h'. overlay_product_simple h background product_img = Inr (background, h')
     \<and> length h' = length h
     \<and> (\<forall>q. q < length h \<longrightarrow> q \<noteq> background \<longrightarrow> h' ! q = h ! q)
     \<and> height (h' ! background) = height (h ! background)
     \<and> width (h' ! background) = width (h ! background)
     \<and> chans (h' ! background) = 4
     \<and> (\<forall>y x. px (h' ! background) y x 3 = px (h ! background) y x 3)
     \<and> (\<forall>y x c. y < height (h ! background) \<longrightarrow> x < width (h ! background) \<longrightarrow> c < 3 \<longrightarrow>
           px (h' ! background) y x c = blend_value (px (h ! background) y x c)
             (alpha_value (px (h ! product_img) y x 3)) (px (h ! product_img) y x c))"
proof -
  have c4: "4 \<le> chans (h ! background)" using assms(3) by simp
  from overlay_post4 [OF assms(1,2) c4 assms(4-6)]
  obtain img where img: "overlay_product_simple h background product_img = Inr (background, h[background := img])"
    "height img = height (h ! background)" "width img = width (h ! background)"
    "chans img = chans (h ! background)"
    "\<forall>y x c. 3 \<le> c \<longrightarrow> px img y x c = px (h ! background) y x c"
    "\<forall>y x c. y < height (h ! background) \<longrightarrow> x < width (h ! background) \<longrightarrow> c < 3 \<longrightarrow>
           px img y x c = blend_value (px (h ! background) y x c)
             (alpha_value (px (h ! product_img) y x 3)) (px (h ! product_img) y x c)"
    by blast
  show ?thesis
    using img assms(1,3)
    by (intro exI [of _ "h[background := img]"]) simp
qed

theorem compositor_blends_in_place_witness:
  "\<exists>h'. overlay_product_simple [cutout 1 1 10 77, cutout 1 1 200 128] 0 1 = Inr (0, h')
     \<and> length h' = 2 \<and> h' ! 1 = cutout 1 1 200 128
     \<and> chans (h' ! 0) = 4 \<and> px (h' ! 0) 0 0 3 = 77
     \<and> px (h' ! 0) 0 0 0 = blend_value 10 (alpha_value 128) 200
     \<and> px (h' ! 0) 0 0 0 \<noteq> 10"
proof -
  let ?h = "[cutout 1 1 10 77, cutout 1 1 200 128]"
  have hyp: "(0 :: nat) < length ?h" "(1 :: nat) < length ?h" "chans (?h ! 0) = 4" "4 \<le> chans (?h ! 1)"
    "height (?h ! 1) = height (?h ! 0)" "width (?h ! 1) = width (?h ! 0)"
    by (simp_all add: cutout_def)
  from compositor_blends_in_place [OF hyp]
  obtain h' where h': "overlay_product_simple ?h 0 1 = Inr (0, h')" "length h' = length ?h"
    "\<And>q. q < length ?h \<Longrightarrow> q \<noteq> 0 \<Longrightarrow> h' ! q = ?h ! q"
    "chans (h' ! 0) = 4" "\<And>y x. px (h' ! 0) y x 3 = px (?h ! 0) y x 3"
    "\<And>y x c. y < height (?h ! 0) \<Longrightarrow> x < width (?h ! 0) \<Longrightarrow> c < 3 \<Longrightarrow>
           px (h' ! 0) y x c = blend_value (px (?h ! 0) y x c)
             (alpha_value (px (?h ! 1) y x 3)) (px (?h ! 1) y x c)"
    by blast
  have v: "px (h' ! 0) 0 0 0 = blend_value 10 (alpha_value 128) 200"
    using h'(6) [of 0 0 0] by (simp add: cutout_def px_rgba_def)
  have "blend_value 10 (alpha_value 128) 200 \<noteq> 10"
  proof
    assume "blend_value 10 (alpha_value 128) 200 = 10"
    with blend_value_tolerance [of 10 128 200] show False by simp
  qed
  with v h'(1,2,4) h'(3) [of 1] h'(5) [of 0 0] show ?thesis
    by (intro exI [of _ h']) (simp add: cutout_def px_rgba_def)
qed

section \<open>Alpha Compositor: sizes that differ\<close>

text \<open>
  Claim C3, as amended. The function does not compare the two shapes; what happens is
  decided by numpy's broadcasting. When the product's height is neither the
  background's nor 1, or its width is neither the background's nor 1, the first
  assignment of the loop raises numpy's \<open>ValueError\<close> (the code has no
  \<open>DimensionMismatchError\<close>) and no image is returned.
\<close>

theorem compositor_mismatch_not_broadcastable:
  assumes "background < length h" and "product_img < length h"
    and "3 \<le> chans (h ! background)" and "4 \<le> chans (h ! product_img)"
    and "0 < height (h ! background)" and "0 < width (h ! background)"
    and "\<not> ((height (h ! product_img) = height (h ! background) \<or> height (h ! product_img) = 1)
           \<and> (width (h ! product_img) = width (h ! background) \<or> width (h ! product_img) = 1))"
  shows "overlay_product_simple h background product_img = Inl ValueError"
  using assms by (rule overlay_not_broadcastable)

theorem compositor_mismatch_not_broadcastable_witness:
  "overlay_product_simple [solid 2 2 3 10, cutout 3 2 255 255] 0 1 = Inl ValueError"
  using compositor_mismatch_not_broadcastable [of 0 "[solid 2 2 3 10, cutout 3 2 255 255]" 1]
  by (simp add: solid_def cutout_def)

text \<open>
  The claim as stated fails where the product has length 1 on an axis: a 1 x 1 product
  is combined with a 2 x 2 background without any error, and the product's single pixel
  is used at every pixel of the result, here at \<open>(1, 1)\<close>.
\<close>

theorem compositor_stretch_counterexample:
  "height (cutout 1 1 255 255) \<noteq> height (solid 2 2 3 10)
   \<and> width (cutout 1 1 255 255) \<noteq> width (solid 2 2 3 10)
   \<and> result_shape (overlay_product_simple [solid 2 2 3 10, cutout 1 1 255 255] 0 1)
       = Inr (2, 2, 2, 4)
   \<and> result_pixel (overlay_product_simple [solid 2 2 3 10, cutout 1 1 255 255] 0 1) 1 1 0
       = Inr (blend_value (px (solid 2 2 3 10) 1 1 0) (alpha_value (px (cutout 1 1 255 255) 0 0 3))
           (px (cutout 1 1 255 255) 0 0 0))"
  by (simp add: result_shape_def result_pixel_def overlay_product_simple_def
      cvtColor_BGR2BGRA_def alloc_def
      chan_plane_def blend_channel_def blend_expr_def broadcast2_def bcast_dim_def plane_map_def
      assign_channel_def solid_def cutout_def Let_def bidx_def blend_value_def alpha_value_def
      px_const_def px_rgba_def)

section \<open>Frame file names and the extractor's loop\<close>

lemma of_char_digit: "d < 10 \<Longrightarrow> of_char (digit_char d) = 48 + d"
  by (simp add: digit_char_def)

lemma undec_snoc: "undec (s @ [c]) = 10 * undec s + (of_char c - 48)"
  by (simp add: undec_def)

lemma undec_dec: "undec (dec n) = n"
proof (induction n rule: dec.induct)
  case (1 n)
  show ?case
  proof (cases "n < 10")
    case True
    then show ?thesis by (simp add: dec.simps [of n] undec_def of_char_digit)
  next
    case False
    with 1 have "undec (dec (n div 10)) = n div 10" by simp
    with False show ?thesis
      by (simp add: dec.simps [of n] undec_snoc of_char_digit)
  qed
qed

lemma undec_zeros: "undec (replicate k (CHR ''0'') @ s) = undec s"
proof -
  have "foldl (\<lambda>a c. 10 * a + (of_char c - 48)) 0 (replicate k (CHR ''0'')) = (0 :: nat)"
    by (induction k) simp_all
  then show ?thesis by (simp add: undec_def)
qed

lemma undec_zfill4: "undec (zfill4 (dec n)) = n"
  by (simp add: zfill4_def undec_zeros undec_dec)

lemma frame_name_inj: "frame_name i = frame_name j \<longleftrightarrow> i = j"
proof
  assume "frame_name i = frame_name j"
  then have "zfill4 (dec i) = zfill4 (dec j)" by (simp add: frame_name_def)
  then have "undec (zfill4 (dec i)) = undec (zfill4 (dec j))" by simp
  then show "i = j" by (simp add: undec_zfill4)
qed simp

lemma update_fresh: "k \<notin> fst ` set d \<Longrightarrow> AList.update k v d = d @ [(k, v)]"
  by (induction d) auto

lemma read_loop_fresh:
  assumes "\<forall>i\<ge>k. frame_name i \<notin> fst ` set d"
  shows "read_loop jpeg fs k d =
     (d @ map (\<lambda>(i, f). (frame_name i, ImageFile (jpeg f))) (zip [k..<k + length fs] fs),
      k + length fs)"
  using assms
proof (induction fs arbitrary: k d)
  case Nil
  then show ?case by simp
next
  case (Cons f fs)
  let ?d = "d @ [(frame_name k, ImageFile (jpeg f))]"
  have fr0: "frame_name k \<notin> fst ` set d" using Cons.prems by simp
  then have "map_of d (frame_name k) = None" by (simp add: map_of_eq_None_iff)
  with fr0 have w: "imwrite jpeg (frame_name k) f d = ?d"
    by (simp add: imwrite_def update_fresh)
  have fresh: "\<forall>i\<ge>Suc k. frame_name i \<notin> fst ` set ?d"
    using Cons.prems by (auto simp: frame_name_inj)
  have "k < k + length (f # fs)" by simp
  then have "[k..<k + length (f # fs)] = k # [Suc k..<k + length (f # fs)]"
    by (rule upt_conv_Cons)
  then have "[k..<k + length (f # fs)] = k # [Suc k..<Suc k + length fs]"
    by simp
  then show ?case
    using Cons.IH [OF fresh] w by simp
qed

lemma digit_char_0: "digit_char 0 = CHR ''0''"
  by code_simp

lemma digit_char_1: "digit_char (Suc 0) = CHR ''1''"
  by code_simp

lemma digit_char_less: "a < 10 \<Longrightarrow> b < 10 \<Longrightarrow> digit_char a < digit_char b \<longleftrightarrow> a < b"
  by (simp add: less_char_def of_char_digit)

lemma digit_char_eq: "a < 10 \<Longrightarrow> b < 10 \<Longrightarrow> digit_char a = digit_char b \<longleftrightarrow> a = b"
  by (metis of_char_digit add_left_cancel)

lemma dec_1digit: "n < 10 \<Longrightarrow> dec n = [digit_char n]"
  by (simp add: dec.simps [of n])

lemma dec_2digits: "10 \<le> n \<Longrightarrow> n < 100 \<Longrightarrow> dec n = [digit_char (n div 10), digit_char (n mod 10)]"
  by (simp add: dec.simps [of n] dec_1digit)

lemma dec_3digits:
  "100 \<le> n \<Longrightarrow> n < 1000 \<Longrightarrow>
   dec n = [digit_char (n div 100), digit_char (n div 10 mod 10), digit_char (n mod 10)]"
  by (simp add: dec.simps [of n] dec_2digits div_mult2_eq [symmetric])

lemma dec_4digits:
  "1000 \<le> n \<Longrightarrow> n < 10000 \<Longrightarrow>
   dec n = [digit_char (n div 1000), digit_char (n div 100 mod 10), digit_char (n div 10 mod 10),
            digit_char (n mod 10)]"
  by (simp add: dec.simps [of n] dec_3digits div_mult2_eq [symmetric])

lemma dec_5digits:
  "10000 \<le> n \<Longrightarrow> n < 100000 \<Longrightarrow>
   dec n = [digit_char (n div 10000), digit_char (n div 1000 mod 10), digit_char (n div 100 mod 10),
            digit_char (n div 10 mod 10), digit_char (n mod 10)]"
  by (simp add: dec.simps [of n] dec_4digits div_mult2_eq [symmetric])

lemma zfill4_dec:
  assumes "n < 10000"
  shows "zfill4 (dec n) = [digit_char (n div 1000), digit_char (n div 100 mod 10),
                            digit_char (n div 10 mod 10), digit_char (n mod 10)]"
proof -
  consider "n < 10" | "10 \<le> n" "n < 100" | "100 \<le> n" "n < 1000" | "1000 \<le> n"
    by linarith
  then show ?thesis
  proof cases
    case 1
    then show ?thesis
      by (simp add: dec_1digit zfill4_def digit_char_0 numeral_3_eq_3)
  next
    case 2
    then show ?thesis
      by (simp add: dec_2digits zfill4_def digit_char_0 numeral_2_eq_2)
  next
    case 3
    then show ?thesis
      by (simp add: dec_3digits zfill4_def digit_char_0)
  next
    case 4
    then show ?thesis
      using assms by (simp add: dec_4digits zfill4_def)
  qed
qed

lemma frame_name_4digits:
  "n < 10000 \<Longrightarrow> frame_name n = ''frame_'' @ [digit_char (n div 1000), digit_char (n div 100 mod 10),
                            digit_char (n div 10 mod 10), digit_char (n mod 10)] @ ''.jpg''"
  by (simp add: frame_name_def zfill4_dec)

lemma frame_name_10000: "frame_name 10000 = ''frame_10000.jpg''"
  by (simp add: frame_name_def zfill4_def dec_5digits digit_char_0 digit_char_1)

lemma frame_name_0: "frame_name 0 = ''frame_0000.jpg''"
  by (simp add: frame_name_4digits digit_char_0)

lemma frame_name_1: "frame_name (Suc 0) = ''frame_0001.jpg''"
  by (simp add: frame_name_4digits digit_char_0 digit_char_1)

lemma lex_step:
  fixes a b :: nat
  assumes "a < b"
  shows "a div 10 < b div 10 \<or> a div 10 = b div 10 \<and> a mod 10 < b mod 10"
proof -
  define qa ra qb rb where "qa = a div 10" and "ra = a mod 10" and "qb = b div 10" and "rb = b mod 10"
  have "a = 10 * qa + ra" "b = 10 * qb + rb" "ra < 10" "rb < 10"
    by (simp_all add: qa_def ra_def qb_def rb_def)
  with assms have "qa < qb \<or> qa = qb \<and> ra < rb" by linarith
  then show ?thesis by (simp add: qa_def ra_def qb_def rb_def)
qed

lemma digits_less:
  fixes i j :: nat
  assumes "i < j"
  shows "i div 1000 < j div 1000
    \<or> i div 1000 = j div 1000 \<and> (i div 100 mod 10 < j div 100 mod 10
    \<or> i div 100 mod 10 = j div 100 mod 10 \<and> (i div 10 mod 10 < j div 10 mod 10
    \<or> i div 10 mod 10 = j div 10 mod 10 \<and> i mod 10 < j mod 10))"
proof -
  have d: "n div 100 = n div 10 div 10" "n div 1000 = n div 10 div 10 div 10" for n :: nat
    by (simp_all add: div_mult2_eq [symmetric])
  from lex_step [OF assms]
  consider "i div 10 < j div 10" | "i div 10 = j div 10" "i mod 10 < j mod 10"
    by blast
  then show ?thesis
  proof cases
    case 1
    from lex_step [OF 1]
    consider "i div 10 div 10 < j div 10 div 10"
      | "i div 10 div 10 = j div 10 div 10" "i div 10 mod 10 < j div 10 mod 10"
      by blast
    then show ?thesis
    proof cases
      case 1
      from lex_step [OF 1] show ?thesis unfolding d by blast
    next
      case 2
      then show ?thesis by (simp add: d)
    qed
  next
    case 2
    then show ?thesis by (simp add: d)
  qed
qed

lemma digits_sum:
  fixes n :: nat
  shows "n = 1000 * (n div 1000) + 100 * (n div 100 mod 10) + 10 * (n div 10 mod 10) + n mod 10"
proof -
  have d: "n div 100 = n div 10 div 10" "n div 1000 = n div 10 div 10 div 10"
    by (simp_all add: div_mult2_eq [symmetric])
  define q1 q2 q3 where "q1 = n div 10" and "q2 = q1 div 10" and "q3 = q2 div 10"
  have "n = 10 * q1 + n mod 10" "q1 = 10 * q2 + q1 mod 10" "q2 = 10 * q3 + q2 mod 10"
    by (simp_all add: q1_def q2_def q3_def)
  then have "n = 1000 * q3 + 100 * (q2 mod 10) + 10 * (q1 mod 10) + n mod 10" by linarith
  then show ?thesis by (simp add: d q1_def q2_def q3_def)
qed

lemma frame_name_less:
  assumes "i < j" "j < 10000"
  shows "frame_name i < frame_name j"
proof -
  have i: "i < 10000" using assms by simp
  have b: "i div 1000 < 10" "j div 1000 < 10" using i assms(2) by simp_all
  show ?thesis
    using digits_less [OF assms(1)] b
    by (simp add: frame_name_4digits i assms(2) digit_char_less digit_char_eq)
qed

lemma frame_name_below_10000:
  assumes "i \<le> 1000"
  shows "frame_name i < frame_name 10000"
proof (cases "i = 1000")
  case True
  then show ?thesis
    by (simp add: frame_name_4digits frame_name_10000 digit_char_0 digit_char_1)
next
  case False
  with assms have "i < 1000" by simp
  then show ?thesis
    by (simp add: frame_name_4digits frame_name_10000 digit_char_0)
qed

lemma frame_name_above_10000:
  assumes "1000 < j" "j < 10000"
  shows "frame_name 10000 < frame_name j"
proof -
  define a b c d where "a = j div 1000" and "b = j div 100 mod 10" and "c = j div 10 mod 10"
    and "d = j mod 10"
  have j: "j = 1000 * a + 100 * b + 10 * c + d"
    unfolding a_def b_def c_def d_def by (rule digits_sum)
  have r: "a < 10" "b < 10" "c < 10" "d < 10"
    using assms(2) by (simp_all add: a_def b_def c_def d_def)
  have "1 < a \<or> 1 = a \<and> (0 < b \<or> 0 = b \<and> (0 < c \<or> 0 = c \<and> 0 < d))"
    using assms(1) j r by auto
  moreover have "frame_name 10000 = ''frame_'' @ [digit_char 1, digit_char 0, digit_char 0,
       digit_char 0, digit_char 0] @ ''.jpg''"
    by (simp add: frame_name_10000 digit_char_0 digit_char_1)
  moreover have "frame_name j = ''frame_'' @ [digit_char a, digit_char b, digit_char c, digit_char d] @ ''.jpg''"
    using assms(2) by (simp add: frame_name_4digits a_def b_def c_def d_def)
  ultimately show ?thesis
    using r by (auto simp: digit_char_less digit_char_eq)
qed

lemma sorted_frame_names:
  assumes "n \<le> 10000"
  shows "sort (map frame_name [0..<n]) = map frame_name [0..<n]"
proof -
  have "sorted (map frame_name [0..<n])"
    unfolding sorted_iff_nth_mono_less
  proof (intro allI impI)
    fix i j assume "i < j" "j < length (map frame_name [0..<n])"
    then have "frame_name i < frame_name j" using assms by (intro frame_name_less) simp_all
    then show "map frame_name [0..<n] ! i \<le> map frame_name [0..<n] ! j"
      using \<open>i < j\<close> \<open>j < length (map frame_name [0..<n])\<close> by simp
  qed
  then show ?thesis by (rule sorted_sort_id)
qed

section \<open>The assembler's loop\<close>

lemma overlay3_pure:
  assumes "background < length h" "product_img < length h" "chans (h ! background) = 3"
  shows "overlay_product_simple h background product_img =
     (case overlay_img (h ! background) (h ! product_img) of
        Inl e \<Rightarrow> Inl e | Inr img \<Rightarrow> Inr (length h, h @ [img]))"
proof (cases "height (h ! background) = 0 \<or> width (h ! background) = 0")
  case True
  then show ?thesis
    using assms(3)
    by (simp add: overlay_product_simple_def overlay_img_def cvtColor_BGR2BGRA_def Let_def)
next
  case False
  define B1 where "B1 = (h ! background)\<lparr>chans := 4,
      px := \<lambda>y x c. if c = 3 then 255 else px (h ! background) y x c\<rparr>"
  define h1 where "h1 = h @ [B1]"
  have cvt: "cvtColor_BGR2BGRA h background = Inr (length h, h1)"
    unfolding h1_def B1_def
    using False by (simp add: cvtColor_BGR2BGRA_def alloc_def Let_def)
  have h1p: "h1 ! product_img = h ! product_img" "h1 ! length h = B1"
    using assms(2) by (simp_all add: h1_def nth_append)
  have neq: "product_img \<noteq> length h" using assms(2) by simp
  have len: "length h < length h1" by (simp add: h1_def)
  have upd: "h1[length h := img] = h @ [img]" for img by (simp add: h1_def)
  show ?thesis
  proof (cases "chan_plane (h ! product_img) 3")
    case (Inl e)
    then show ?thesis
      unfolding overlay_product_simple_def overlay_img_def
      using assms(3) False cvt by (simp add: h1p)
  next
    case (Inr a)
    show ?thesis
      unfolding overlay_product_simple_def overlay_img_def
      using assms(3) False cvt Inr neq
      by (simp add: h1p blend_channels_local [OF len] upd B1_def split: sum.splits)
  qed
qed

lemma composite_frame_pure:
  assumes "chans f = 3"
  shows "composite_frame P f =
     (case overlay_img f P of
        Inl e \<Rightarrow> Inl e
      | Inr img \<Rightarrow>
          (if chans img = 4 then
             (if height img = 0 \<or> width img = 0 then Inl CvError else Inr (img\<lparr>chans := 3\<rparr>))
           else Inr img))"
  using assms overlay3_pure [of 1 "[P, f]" 0]
  by (simp add: composite_frame_def cvtColor_BGRA2BGR_def alloc_def Let_def split: sum.splits)

lemma imread_chans: "imread c = Some f \<Longrightarrow> chans f = 3"
  by (cases c rule: imread.cases) (auto simp: to_bgr_def)

lemma loop_body:
  assumes "product < length h" "chans f = 3" "composite_frame (h ! product) f = Inr img"
  shows "\<exists>h3 r. (case overlay_product_simple (h @ [f]) (length h) product of
                   Inl e \<Rightarrow> Inl e
                 | Inr (r, h2) \<Rightarrow>
                     (if chans (h2 ! r) = 4 then cvtColor_BGRA2BGR h2 r else Inr (r, h2)))
               = Inr (r, h3)
           \<and> h3 ! r = img \<and> product < length h3 \<and> h3 ! product = h ! product"
proof -
  have p: "product < length (h @ [f])" "length h < length (h @ [f])"
    "(h @ [f]) ! length h = f" "(h @ [f]) ! product = h ! product"
    using assms(1) by (simp_all add: nth_append)
  have c3: "chans ((h @ [f]) ! length h) = 3" using assms(2) p(3) by simp
  from assms(3) obtain img0 where ov: "overlay_img f (h ! product) = Inr img0"
    by (auto simp: composite_frame_pure [OF assms(2)] split: sum.splits)
  have ovl: "overlay_product_simple (h @ [f]) (length h) product
     = Inr (length h + 1, h @ [f, img0])"
    using overlay3_pure [OF p(2) p(1) c3] ov by (simp add: p)
  show ?thesis
  proof (cases "chans img0 = 4")
    case True
    with assms(3) ov have ne: "\<not> (height img0 = 0 \<or> width img0 = 0)" and i: "img = img0\<lparr>chans := 3\<rparr>"
      by (auto simp: composite_frame_pure [OF assms(2)] split: if_splits)
    show ?thesis
      using ovl True ne i assms(1)
      by (intro exI [of _ "h @ [f, img0, img]"] exI [of _ "length h + 2"])
        (simp add: cvtColor_BGRA2BGR_def alloc_def Let_def nth_append)
  next
    case False
    with assms(3) ov have i: "img = img0"
      by (auto simp: composite_frame_pure [OF assms(2)])
    show ?thesis
      using ovl False i assms(1)
      by (intro exI [of _ "h @ [f, img0]"] exI [of _ "length h + 1"])
        (simp add: nth_append)
  qed
qed

lemma overlay_loop_result:
  assumes "product < length h"
    and "\<forall>nm\<in>set names. (endswith nm ''.jpg'' \<or> endswith nm ''.png'')
          \<longrightarrow> (\<exists>f img. imread (map_of d nm) = Some f \<and> composite_frame (h ! product) f = Inr img)"
  shows "overlay_loop names d product h out =
     Inr (out @ map (\<lambda>nm. projr (composite_frame (h ! product) (the (imread (map_of d nm)))))
                  (filter (\<lambda>nm. endswith nm ''.jpg'' \<or> endswith nm ''.png'') names))"
  using assms
proof (induction names arbitrary: h out)
  case Nil
  then show ?case by simp
next
  case (Cons nm names)
  show ?case
  proof (cases "endswith nm ''.jpg'' \<or> endswith nm ''.png''")
    case False
    have rest: "\<forall>nm\<in>set names. (endswith nm ''.jpg'' \<or> endswith nm ''.png'')
          \<longrightarrow> (\<exists>f img. imread (map_of d nm) = Some f \<and> composite_frame (h ! product) f = Inr img)"
      using Cons.prems(2) by simp
    have step: "overlay_loop (nm # names) d product h out = overlay_loop names d product h out"
      using False by simp
    show ?thesis
      unfolding step Cons.IH [OF Cons.prems(1) rest] using False by simp
  next
    case True
    with Cons.prems(2) obtain f img where
      nm: "imread (map_of d nm) = Some f" "composite_frame (h ! product) f = Inr img"
      by auto
    have c3: "chans f = 3" using nm(1) by (rule imread_chans)
    from loop_body [OF Cons.prems(1) c3 nm(2)]
    obtain h3 r where body: "(case overlay_product_simple (h @ [f]) (length h) product of
                     Inl e \<Rightarrow> Inl e
                   | Inr (r, h2) \<Rightarrow>
                       (if chans (h2 ! r) = 4 then cvtColor_BGRA2BGR h2 r else Inr (r, h2)))
                 = Inr (r, h3)"
      "h3 ! r = img" "product < length h3" "h3 ! product = h ! product"
      by blast
    have rest: "\<forall>nm\<in>set names. (endswith nm ''.jpg'' \<or> endswith nm ''.png'')
          \<longrightarrow> (\<exists>f img. imread (map_of d nm) = Some f \<and> composite_frame (h3 ! product) f = Inr img)"
      using Cons.prems(2) body(4) by simp
    have step: "overlay_loop (nm # names) d product h out
        = overlay_loop names d product h3 (out @ [img])"
      using True nm(1) body(1,2) by (auto simp: alloc_def split: sum.splits)
    show ?thesis
      unfolding step Cons.IH [OF body(3) rest] using True nm body(4) by simp
  qed
qed

lemma composite_frame_post:
  assumes "chans f = 3" "4 \<le> chans P" "height P = height f" "width P = width f"
    "0 < height f" "0 < width f"
  shows "\<exists>img. composite_frame P f = Inr img \<and> height img = height f \<and> width img = width f
     \<and> chans img = 3
     \<and> (\<forall>y x c. y < height f \<longrightarrow> x < width f \<longrightarrow> c < 3 \<longrightarrow>
           px img y x c = blend_value (px f y x c) (alpha_value (px P y x 3)) (px P y x c))"
proof -
  have hyp: "(1 :: nat) < length [P, f]" "(0 :: nat) < length [P, f]" "chans ([P, f] ! 1) = 3"
    "4 \<le> chans ([P, f] ! 0)" "height ([P, f] ! 0) = height ([P, f] ! 1)"
    "width ([P, f] ! 0) = width ([P, f] ! 1)" "0 < height ([P, f] ! 1)" "0 < width ([P, f] ! 1)"
    using assms by simp_all
  from overlay_post3 [OF hyp]
  obtain img where img: "overlay_product_simple [P, f] 1 0 = Inr (length [P, f], [P, f] @ [img])"
    "height img = height f" "width img = width f" "chans img = 4"
    "\<And>y x c. y < height f \<Longrightarrow> x < width f \<Longrightarrow> c < 3 \<Longrightarrow>
       px img y x c = blend_value (px f y x c) (alpha_value (px P y x 3)) (px P y x c)"
    by auto
  have "composite_frame P f = Inr (img\<lparr>chans := 3\<rparr>)"
    using img(1-4) assms(5,6)
    by (simp add: composite_frame_def cvtColor_BGRA2BGR_def alloc_def Let_def)
  with img(2,3,5) show ?thesis
    by (intro exI [of _ "img\<lparr>chans := 3\<rparr>"]) simp
qed

lemma endswith_frame_name: "endswith (frame_name n) ''.jpg''"
  by (simp add: endswith_def frame_name_def)

lemma listdir_frame_files: "listdir (frame_files jpeg fs) = map frame_name [0..<length fs]"
proof -
  have "map fst (frame_files jpeg fs) = map (frame_name \<circ> fst) (zip [0..<length fs] fs)"
    by (simp add: frame_files_def comp_def case_prod_unfold)
  also have "\<dots> = map frame_name (map fst (zip [0..<length fs] fs))"
    by (simp only: map_map)
  also have "map fst (zip [0..<length fs] fs) = [0..<length fs]"
    by (rule map_fst_zip) simp
  finally show ?thesis by (simp add: listdir_def)
qed

lemma distinct_frame_files: "distinct (listdir (frame_files jpeg fs))"
  by (simp add: listdir_frame_files distinct_map inj_on_def frame_name_inj)

lemma map_of_frame_files:
  assumes "i < length fs"
  shows "map_of (frame_files jpeg fs) (frame_name i) = Some (ImageFile (jpeg (fs ! i)))"
proof -
  have "frame_files jpeg fs ! i = (frame_name i, ImageFile (jpeg (fs ! i)))"
    using assms by (simp add: frame_files_def)
  moreover have "i < length (frame_files jpeg fs)" using assms by (simp add: frame_files_def)
  ultimately have "(frame_name i, ImageFile (jpeg (fs ! i))) \<in> set (frame_files jpeg fs)"
    by (metis nth_mem)
  moreover have "distinct (map fst (frame_files jpeg fs))"
    using distinct_frame_files [of jpeg fs] by (simp add: listdir_def)
  ultimately show ?thesis by simp
qed

lemma split_frame_files:
  assumes "frames_folder = Missing \<or> frames_folder = Directory []"
  shows "split_video_to_frames jpeg (Frames fs) frames_folder
           = Inr (Directory (frame_files jpeg fs), length fs)"
proof -
  have mk: "mkdir_exist_ok frames_folder = Inr []"
    using assms by (auto simp: mkdir_exist_ok_def)
  have "read_loop jpeg fs 0 [] = (frame_files jpeg fs, length fs)"
    using read_loop_fresh [of 0 "[]" jpeg fs] by (simp add: frame_files_def)
  with mk show ?thesis by (simp add: split_video_to_frames_def)
qed

lemma assembled_frames:
  assumes n: "1 \<le> length fs"
    and product: "imread_unchanged product_path = Some P"
    and ok: "\<forall>f\<in>set fs. \<exists>img. composite_frame P (to_bgr (jpeg f)) = Inr img"
  shows "\<exists>out.
       create_video_with_overlay (Directory (frame_files jpeg fs)) product_path fps = Inr out
     \<and> vw_frames out =
         map (\<lambda>nm. projr (composite_frame P (the (imread (map_of (frame_files jpeg fs) nm)))))
           (sort (map frame_name [0..<length fs]))
     \<and> vw_width out = width (the (imread (map_of (frame_files jpeg fs)
                            (hd (sort (map frame_name [0..<length fs]))))))
     \<and> vw_height out = height (the (imread (map_of (frame_files jpeg fs)
                            (hd (sort (map frame_name [0..<length fs]))))))"
proof -
  define d where "d = frame_files jpeg fs"
  have ex2: "listdir d = map frame_name [0..<length fs]"
    by (simp add: d_def listdir_frame_files)
  have ex3: "map_of d (frame_name i) = Some (ImageFile (jpeg (fs ! i)))" if "i < length fs" for i
    using that by (simp add: d_def map_of_frame_files)
  define names where "names = sort (map frame_name [0..<length fs])"
  have set_names: "set names = frame_name ` {0..<length fs}"
    by (simp add: names_def)
  have each: "(endswith nm ''.jpg'' \<or> endswith nm ''.png'')
       \<and> (\<exists>f img. imread (map_of d nm) = Some f \<and> composite_frame P f = Inr img)"
    if "nm \<in> set names" for nm
  proof -
    from that obtain i where i: "i < length fs" "nm = frame_name i"
      by (auto simp: set_names)
    have "imread (map_of d nm) = Some (to_bgr (jpeg (fs ! i)))"
      using ex3 [OF i(1)] i(2) by simp
    moreover have "\<exists>img. composite_frame P (to_bgr (jpeg (fs ! i))) = Inr img"
      using ok i(1) by simp
    ultimately show ?thesis
      using i(2) by (simp add: endswith_frame_name)
  qed
  have ne: "names \<noteq> []"
    using n set_names by (metis atLeastLessThan_iff image_is_empty less_eq_Suc_le One_nat_def
        empty_iff set_empty zero_le)
  then obtain first rest where fr: "names = first # rest" by (cases names) auto
  then have "first \<in> set names" by simp
  from each [OF this] obtain f0 where f0: "imread (map_of d first) = Some f0" by blast
  have all: "filter (\<lambda>nm. endswith nm ''.jpg'' \<or> endswith nm ''.png'') names = names"
    using each by (simp add: filter_id_conv)
  have loop: "overlay_loop names d 0 [P] [] =
     Inr (map (\<lambda>nm. projr (composite_frame P (the (imread (map_of d nm))))) names)"
    using overlay_loop_result [of 0 "[P]" names d "[]"] each by (simp add: all)
  have "create_video_with_overlay (Directory d) product_path fps =
     Inr \<lparr>vw_width = width f0, vw_height = height f0, vw_fps = fps,
          vw_frames = map (\<lambda>nm. projr (composite_frame P (the (imread (map_of d nm))))) names\<rparr>"
    using product fr f0 loop ex2
    by (simp add: create_video_with_overlay_def alloc_def names_def)
  moreover have "f0 = the (imread (map_of d (hd names)))"
    using f0 fr by simp
  ultimately show ?thesis
    unfolding names_def d_def by simp
qed

lemma sorted_map_upt:
  fixes f :: "nat \<Rightarrow> 'a :: linorder"
  assumes "\<And>i j. a \<le> i \<Longrightarrow> i < j \<Longrightarrow> j < b \<Longrightarrow> f i \<le> f j"
  shows "sorted (map f [a..<b])"
  unfolding sorted_iff_nth_mono_less
proof (intro allI impI)
  fix i j assume "i < j" "j < length (map f [a..<b])"
  then show "map f [a..<b] ! i \<le> map f [a..<b] ! j"
    using assms [of "a + i" "a + j"] by simp
qed

lemma sort_one_out_of_place:
  fixes f :: "nat \<Rightarrow> 'a :: linorder"
  assumes k: "k \<le> n" and inj: "inj f"
    and mono: "\<And>i j. i < j \<Longrightarrow> j < n \<Longrightarrow> f i \<le> f j"
    and below: "\<And>i. i < k \<Longrightarrow> f i \<le> f n"
    and above: "\<And>j. k \<le> j \<Longrightarrow> j < n \<Longrightarrow> f n \<le> f j"
  shows "sort (map f [0..<Suc n]) = map f ([0..<k] @ n # [k..<n])"
proof (rule sorted_distinct_set_unique)
  have split: "[0..<n] = [0..<k] @ [k..<n]"
    using k upt_add_eq_append [of 0 k "n - k"] by simp
  have eq: "f x = f y \<longleftrightarrow> x = y" for x y
    using inj by (simp add: inj_eq)
  show "sorted (sort (map f [0..<Suc n]))" by simp
  show "distinct (sort (map f [0..<Suc n]))"
    by (simp add: distinct_map inj_on_def eq del: upt_Suc)
  show "distinct (map f ([0..<k] @ n # [k..<n]))"
    using k by (auto simp: distinct_map inj_on_def eq)
  have "set [0..<Suc n] = set ([0..<k] @ n # [k..<n])"
    using k by auto
  then show "set (sort (map f [0..<Suc n])) = set (map f ([0..<k] @ n # [k..<n]))"
    by (simp only: set_sort set_map)
  have s1: "sorted (map f [0..<k])"
    using k by (intro sorted_map_upt mono) simp_all
  have s2: "sorted (map f [k..<n])"
    by (intro sorted_map_upt mono) simp_all
  show "sorted (map f ([0..<k] @ n # [k..<n]))"
    using s1 s2 below above mono k by (auto simp: sorted_append)
qed

lemma sort_frame_names_10001:
  "sort (map frame_name [0..<Suc 10000]) = map frame_name ([0..<1001] @ 10000 # [1001..<10000])"
proof (rule sort_one_out_of_place)
  show "(1001 :: nat) \<le> 10000" by simp
  show "inj frame_name" by (simp add: inj_def frame_name_inj)
  show "frame_name i \<le> frame_name j" if "i < j" "j < 10000" for i j
    using frame_name_less [OF that] by simp
  show "frame_name i \<le> frame_name 10000" if "i < 1001" for i
    using frame_name_below_10000 [of i] that by simp
  show "frame_name 10000 \<le> frame_name j" if "1001 \<le> j" "j < 10000" for j
    using frame_name_above_10000 [of j] that by simp
qed

lemma to_bgr_3: "chans f = 3 \<Longrightarrow> to_bgr f = f"
  by (simp add: to_bgr_def)

lemma composite_solid:
  assumes "0 < h" "0 < w"
  shows "\<exists>img. composite_frame (cutout h w p a) (solid h w 3 v) = Inr img
     \<and> height img = h \<and> width img = w \<and> chans img = 3
     \<and> px img 0 0 0 = blend_value v (alpha_value a) p"
proof -
  from composite_frame_post [of "solid h w 3 v" "cutout h w p a"] assms
  obtain img where "composite_frame (cutout h w p a) (solid h w 3 v) = Inr img"
    "height img = h" "width img = w" "chans img = 3"
    "\<And>y x c. y < height (solid h w 3 v) \<Longrightarrow> x < width (solid h w 3 v) \<Longrightarrow> c < 3 \<Longrightarrow>
       px img y x c = blend_value (px (solid h w 3 v) y x c)
         (alpha_value (px (cutout h w p a) y x 3)) (px (cutout h w p a) y x c)"
    by (auto simp: solid_def cutout_def)
  from this(1-4) this(5) [of 0 0 0] assms show ?thesis
    by (simp add: solid_def cutout_def px_const_def px_rgba_def)
qed

lemma length_long_video: "length long_video = Suc 10000"
  by (simp add: long_video_def)

lemma long_video_1001: "long_video ! 1001 = solid 720 1280 3 0"
  by (simp add: long_video_def nth_append)

lemma long_video_10000: "long_video ! 10000 = solid 720 1280 3 255"
  by (simp add: long_video_def nth_append)

lemma set_long_video:
  "f \<in> set long_video \<Longrightarrow> f = solid 720 1280 3 0 \<or> f = solid 720 1280 3 255"
  by (auto simp: long_video_def)

lemma composites_differ:
  "composite_frame (cutout 720 1280 0 0) (solid 720 1280 3 255)
     \<noteq> composite_frame (cutout 720 1280 0 0) (solid 720 1280 3 0)"
proof
  assume eq: "composite_frame (cutout 720 1280 0 0) (solid 720 1280 3 255)
            = composite_frame (cutout 720 1280 0 0) (solid 720 1280 3 0)"
  from composite_solid [of 720 1280 0 0 255] composite_solid [of 720 1280 0 0 0] eq
  have "blend_value 255 (alpha_value 0) 0 = blend_value 0 (alpha_value 0) 0"
    by auto
  with blend_value_tolerance [of 255 0 0] blend_value_tolerance [of 0 0 0]
  show False by simp
qed

section \<open>Frame Extractor: a video without frames\<close>

text \<open>
  Claim C4, as amended. The function has no \<open>raise\<close> and does not test \<open>isOpened()\<close>
  or the count after the loop: for a video that cannot be opened, and for one with no
  decodable frame, the loop body never runs and the function returns 0 normally, with
  the output directory created and nothing written into it. The only failure is that
  of \<open>mkdir\<close>, when the output path is an existing regular file.
\<close>

theorem extractor_no_frames_returns_zero:
  assumes "video_path = Unopenable \<or> video_path = Frames []"
    and "mkdir_exist_ok output_folder = Inr d"
  shows "split_video_to_frames jpeg video_path output_folder = Inr (Directory d, 0)"
  using assms by (auto simp: split_video_to_frames_def)

theorem extractor_no_frames_returns_zero_witness:
  "(Unopenable = Unopenable \<or> Unopenable = Frames []) \<and> mkdir_exist_ok Missing = Inr []
   \<and> split_video_to_frames id Unopenable Missing = Inr (Directory [], 0)"
  using extractor_no_frames_returns_zero [of Unopenable Missing "[]" id]
  by (simp add: mkdir_exist_ok_def)

text \<open>The claim as stated fails: neither run ends in an error, let alone an \<open>IOError\<close>.\<close>

theorem extractor_no_frames_counterexample:
  "split_video_to_frames id Unopenable Missing = Inr (Directory [], 0)
   \<and> split_video_to_frames id (Frames []) Missing = Inr (Directory [], 0)"
  by (simp add: split_video_to_frames_def mkdir_exist_ok_def)

section \<open>Frame Extractor: the files written\<close>

lemma read_loop_count: "snd (read_loop jpeg fs k d) = k + length fs"
  by (induction fs arbitrary: k d) simp_all

lemma read_loop_other:
  assumes "\<forall>i. i < length fs \<longrightarrow> nm \<noteq> frame_name (k + i)"
  shows "map_of (fst (read_loop jpeg fs k d)) nm = map_of d nm"
  using assms
proof (induction fs arbitrary: k d)
  case Nil
  then show ?case by simp
next
  case (Cons f fs)
  have "nm \<noteq> frame_name k" using Cons.prems [rule_format, of 0] by simp
  moreover have "\<forall>i. i < length fs \<longrightarrow> nm \<noteq> frame_name (Suc k + i)"
    using Cons.prems by auto
  ultimately show ?case
    using Cons.IH [of "Suc k"] by (simp add: imwrite_def update_conv')
qed

lemma read_loop_written:
  assumes "i < length fs" and "map_of d (frame_name (k + i)) \<noteq> Some SubDirectory"
  shows "map_of (fst (read_loop jpeg fs k d)) (frame_name (k + i)) = Some (ImageFile (jpeg (fs ! i)))"
  using assms
proof (induction fs arbitrary: k d i)
  case Nil
  then show ?case by simp
next
  case (Cons f fs)
  show ?case
  proof (cases i)
    case 0
    have "\<forall>j. j < length fs \<longrightarrow> frame_name k \<noteq> frame_name (Suc k + j)"
      by (simp add: frame_name_inj)
    from read_loop_other [OF this] show ?thesis
      using 0 Cons.prems(2) by (simp add: imwrite_def update_conv')
  next
    case (Suc j)
    with Cons.prems have j: "j < length fs" by simp
    have "map_of (imwrite jpeg (frame_name k) f d) (frame_name (Suc k + j))
            = map_of d (frame_name (Suc k + j))"
      by (simp add: imwrite_def update_conv' frame_name_inj)
    with Cons.prems(2) Suc
    have "map_of (imwrite jpeg (frame_name k) f d) (frame_name (Suc k + j)) \<noteq> Some SubDirectory"
      by simp
    from Cons.IH [OF j this] show ?thesis
      using Suc by simp
  qed
qed

text \<open>
  Claim C6. For a video of \<open>N\<close> frames and an output path that is missing or a
  directory, \<open>split_video_to_frames\<close> returns \<open>N\<close>, and afterwards the file
  \<open>frame_name i\<close> holds frame \<open>i\<close> of the video (as the JPEG codec gives it back) for every
  \<open>i < N\<close> whose name was not that of a sub-directory of the output directory, which is
  every \<open>i < N\<close> for a directory of files. The names of different indices are different,
  so these are \<open>N\<close> files, one for each index \<open>0\<close>, ..., \<open>N - 1\<close>; no other entry of the
  directory is touched. When the directory was missing or empty, its entries are
  exactly these \<open>N\<close> names.
\<close>

theorem extractor_writes_N_frames:
  assumes "mkdir_exist_ok output_folder = Inr d0"
  shows "\<exists>d. split_video_to_frames jpeg (Frames fs) output_folder = Inr (Directory d, length fs)
     \<and> (\<forall>i. i < length fs \<longrightarrow> map_of d0 (frame_name i) \<noteq> Some SubDirectory \<longrightarrow>
           map_of d (frame_name i) = Some (ImageFile (jpeg (fs ! i))))
     \<and> (\<forall>i j. frame_name i = frame_name j \<longrightarrow> i = j)
     \<and> (\<forall>nm. (\<forall>i. i < length fs \<longrightarrow> nm \<noteq> frame_name i) \<longrightarrow> map_of d nm = map_of d0 nm)
     \<and> (d0 = [] \<longrightarrow> listdir d = map frame_name [0..<length fs] \<and> distinct (listdir d)
                   \<and> (\<forall>i. i < length fs \<longrightarrow>
                         map_of d (frame_name i) = Some (ImageFile (jpeg (fs ! i)))))"
proof -
  define d where "d = fst (read_loop jpeg fs 0 d0)"
  have rl: "read_loop jpeg fs 0 d0 = (d, length fs)"
    using read_loop_count [of jpeg fs 0 d0] by (simp add: d_def prod_eq_iff)
  have res: "split_video_to_frames jpeg (Frames fs) output_folder = Inr (Directory d, length fs)"
    using assms rl by (simp add: split_video_to_frames_def)
  have w: "map_of d (frame_name i) = Some (ImageFile (jpeg (fs ! i)))"
    if "i < length fs" "map_of d0 (frame_name i) \<noteq> Some SubDirectory" for i
    using read_loop_written [of i fs d0 0 jpeg] that by (simp add: d_def)
  have o: "map_of d nm = map_of d0 nm" if "\<forall>i. i < length fs \<longrightarrow> nm \<noteq> frame_name i" for nm
    using read_loop_other [of fs nm 0 jpeg d0] that by (simp add: d_def)
  have e: "listdir d = map frame_name [0..<length fs] \<and> distinct (listdir d)" if "d0 = []"
    using that read_loop_fresh [of 0 "[]" jpeg fs] listdir_frame_files [of jpeg fs]
      distinct_frame_files [of jpeg fs]
    by (simp add: d_def frame_files_def)
  have w0: "map_of d (frame_name i) = Some (ImageFile (jpeg (fs ! i)))"
    if "d0 = []" "i < length fs" for i
    using w [OF that(2)] that(1) by simp
  from res w o e w0 show ?thesis
    by (intro exI [of _ d] conjI allI impI) (simp_all add: frame_name_inj distinct_map inj_on_def)
qed

theorem extractor_writes_N_frames_witness:
  "\<exists>d. split_video_to_frames id (Frames [solid 1 1 3 0, solid 1 1 3 255]) Missing
         = Inr (Directory d, 2)
     \<and> listdir d = [''frame_0000.jpg'', ''frame_0001.jpg'']
     \<and> map_of d ''frame_0001.jpg'' = Some (ImageFile (solid 1 1 3 255))"
proof -
  let ?fs = "[solid 1 1 3 0, solid 1 1 3 255]"
  have mk: "mkdir_exist_ok Missing = Inr []" by (simp add: mkdir_exist_ok_def)
  from extractor_writes_N_frames [OF mk, of id ?fs]
  obtain d where d: "split_video_to_frames id (Frames ?fs) Missing = Inr (Directory d, length ?fs)"
    "\<And>i. i < length ?fs \<Longrightarrow> map_of d (frame_name i) = Some (ImageFile (id (?fs ! i)))"
    "listdir d = map frame_name [0..<length ?fs]"
    by auto
  have "[0..<length ?fs] = [0, 1]" by (simp add: upt_rec)
  with d(1,3) d(2) [of 1] show ?thesis
    by (intro exI [of _ d]) (simp add: frame_name_0 frame_name_1)
qed

section \<open>Extraction, compositing and assembly: the order of the frames\<close>

lemma blend_channels_img_shape:
  "blend_channels_img aliased cs B P alpha = Inr img \<Longrightarrow>
     height img = height B \<and> width img = width B \<and> chans img = chans B"
proof (induction cs arbitrary: B P)
  case Nil
  then show ?case by simp
next
  case (Cons c cs)
  from Cons.prems obtain s B' where st: "blend_expr c B P alpha = Inr s"
    "assign_channel B c s = Inr B'"
    "blend_channels_img aliased cs B' (if aliased then B' else P) alpha = Inr img"
    by (auto split: sum.splits)
  from st(2) have "height B' = height B \<and> width B' = width B \<and> chans B' = chans B"
    by (auto simp: assign_channel_def split: if_splits)
  with Cons.IH [OF st(3)] show ?case by simp
qed

lemma composite_frame_shape:
  assumes "chans f = 3" "composite_frame P f = Inr img"
  shows "height img = height f \<and> width img = width f \<and> chans img = 3"
proof -
  from assms(2) obtain img0 where ov: "overlay_img f P = Inr img0"
    by (auto simp: composite_frame_pure [OF assms(1)] split: sum.splits)
  then obtain a where "blend_channels_img False [0, 1, 2]
       (f\<lparr>chans := 4, px := \<lambda>y x c. if c = 3 then 255 else px f y x c\<rparr>) P
       (plane_map (\<lambda>v. f64_div v 255) a) = Inr img0"
    by (auto simp: overlay_img_def split: if_splits sum.splits)
  from blend_channels_img_shape [OF this]
  have "height img0 = height f" "width img0 = width f" "chans img0 = 4" by simp_all
  with assms(2) ov show ?thesis
    by (auto simp: composite_frame_pure [OF assms(1)] split: if_splits)
qed

text \<open>A writer that did not open leaves a video without frames, whatever was passed to
  \<open>out.write\<close>; the function returns normally all the same.\<close>

lemma unopened_writer_writes_nothing: "decoded_frames False codec out = []"
  by (simp add: decoded_frames_def)

text \<open>
  Up to 10000 frames the order is kept. For a video of \<open>N\<close> frames with
  \<open>1 \<le> N \<le> 10000\<close> that all have one size, extracted into a missing or empty directory,
  a product image that loads and that every frame (as read back from its file) can be
  composited with, and a writer that opened: the assembler succeeds, and the decoded
  video has \<open>N\<close> frames, of which frame \<open>i\<close> is what the codec makes of the composite of input
  frame \<open>i\<close>. Up to index 9999 the names have four digits, so that the lexical order in
  which the assembler walks through \<open>sorted(os.listdir(...))\<close> is the order of the indices.
\<close>

lemma frame_order_up_to_10000:
  assumes "1 \<le> length fs" and "length fs \<le> 10000"
    and "frames_folder = Missing \<or> frames_folder = Directory []"
    and "imread_unchanged product_path = Some P"
    and "\<forall>f\<in>set fs. \<exists>img. composite_frame P (to_bgr (jpeg f)) = Inr img"
    and "\<forall>f\<in>set fs. height (jpeg f) = height (jpeg (fs ! 0))
                    \<and> width (jpeg f) = width (jpeg (fs ! 0))"
  shows "\<exists>folder1 out.
       split_video_to_frames jpeg (Frames fs) frames_folder = Inr (folder1, length fs)
     \<and> create_video_with_overlay folder1 product_path fps = Inr out
     \<and> decoded_frames True codec out
         = map (\<lambda>f. codec (projr (composite_frame P (to_bgr (jpeg f))))) fs"
proof -
  let ?d = "frame_files jpeg fs"
  let ?g = "\<lambda>nm. projr (composite_frame P (the (imread (map_of ?d nm))))"
  let ?c = "\<lambda>f. projr (composite_frame P (to_bgr (jpeg f)))"
  let ?names = "sort (map frame_name [0..<length fs])"
  from assembled_frames [OF assms(1,4,5), of fps]
  obtain out where out: "create_video_with_overlay (Directory ?d) product_path fps = Inr out"
    "vw_frames out = map ?g ?names"
    "vw_width out = width (the (imread (map_of ?d (hd ?names))))"
    "vw_height out = height (the (imread (map_of ?d (hd ?names))))"
    by blast
  have names: "?names = map frame_name [0..<length fs]"
    by (rule sorted_frame_names [OF assms(2)])
  have l0: "0 < length fs" using assms(1) by (cases fs) simp_all
  then have "[0..<length fs] = 0 # [Suc 0..<length fs]"
    by (rule upt_conv_Cons)
  then have hd: "hd ?names = frame_name 0" unfolding names by simp
  have wh: "width (to_bgr x) = width x" "height (to_bgr x) = height x" for x
    by (simp_all add: to_bgr_def)
  have size: "vw_width out = width (jpeg (fs ! 0))" "vw_height out = height (jpeg (fs ! 0))"
    unfolding out(3,4) hd by (simp_all add: map_of_frame_files [OF l0] wh)
  have "map ?g (map frame_name [0..<length fs]) = map ?c fs"
    by (rule nth_equalityI) (simp_all add: map_of_frame_files)
  with out(2) names have fr: "vw_frames out = map ?c fs" by simp
  have "width x = vw_width out \<and> height x = vw_height out \<and> chans x = 3"
    if "x \<in> set (vw_frames out)" for x
  proof -
    from that obtain f where f: "f \<in> set fs" "x = ?c f" unfolding fr by auto
    with assms(5) obtain img where img: "composite_frame P (to_bgr (jpeg f)) = Inr img"
      by blast
    have "chans (to_bgr (jpeg f)) = 3" by (simp add: to_bgr_def)
    from composite_frame_shape [OF this img] f img assms(6) size show ?thesis
      by (simp add: wh)
  qed
  then have "decoded_frames True codec out = map codec (vw_frames out)"
    by (simp add: decoded_frames_def filter_id_conv)
  with fr have "decoded_frames True codec out = map (\<lambda>f. codec (?c f)) fs"
    by simp
  with split_frame_files [OF assms(3), of jpeg fs] out(1) show ?thesis by blast
qed

lemma hd_sort_frame_names_10001: "hd (sort (map frame_name [0..<Suc 10000])) = frame_name 0"
proof -
  have "[0..<1001] = 0 # [Suc 0..<1001]" by (rule upt_conv_Cons) simp
  then show ?thesis
    unfolding sort_frame_names_10001 by (simp only: list.map append_Cons list.sel)
qed

lemma composite_long_video:
  assumes "f \<in> set long_video"
  shows "to_bgr (id f) = f \<and> height f = 720 \<and> width f = 1280
     \<and> (\<exists>img. composite_frame (cutout 720 1280 0 0) f = Inr img
            \<and> height img = 720 \<and> width img = 1280 \<and> chans img = 3)"
proof -
  from set_long_video [OF assms] composite_solid [of 720 1280 0 0 0]
    composite_solid [of 720 1280 0 0 255]
  show ?thesis by (auto simp: to_bgr_def solid_def)
qed

text \<open>
  Claim C5 says that the order is kept for every \<open>N \<ge> 1\<close>, because the names have a fixed
  width. The code does not do that from 10001 frames on: \<open>:04d\<close> is a minimum width, the
  name of index 10000 has five digits and sorts between those of 1000 and 1001. For
  the video \<open>long_video\<close> of 10001 frames of 1280 x 720 pixels, a product image of that
  size, a frame directory that does not exist yet, a lossless JPEG round trip and a
  writer that opened: extraction returns 10001, the assembler succeeds, the decoded
  video has 10001 frames, and its frame 1001 is what the codec makes of the composite
  of input frame 10000, whatever the codec. With a lossless codec that is not the
  composite of input frame 1001, which the claim requires there.
\<close>

theorem frame_10000_decoded_at_1001:
  "split_video_to_frames id (Frames long_video) Missing
     = Inr (Directory (frame_files id long_video), 10001)
   \<and> \<not> isl (create_video_with_overlay (Directory (frame_files id long_video))
              (Some (ImageFile (cutout 720 1280 0 0))) 24)
   \<and> length (decoded_frames True codec
        (projr (create_video_with_overlay (Directory (frame_files id long_video))
              (Some (ImageFile (cutout 720 1280 0 0))) 24))) = 10001
   \<and> decoded_frames True codec
        (projr (create_video_with_overlay (Directory (frame_files id long_video))
              (Some (ImageFile (cutout 720 1280 0 0))) 24)) ! 1001
       = codec (projr (composite_frame (cutout 720 1280 0 0) (long_video ! 10000)))
   \<and> decoded_frames True id
        (projr (create_video_with_overlay (Directory (frame_files id long_video))
              (Some (ImageFile (cutout 720 1280 0 0))) 24)) ! 1001
       \<noteq> projr (composite_frame (cutout 720 1280 0 0) (long_video ! 1001))"
proof -
  let ?P = "cutout 720 1280 0 0"
  let ?d = "frame_files id long_video"
  let ?g = "\<lambda>nm. projr (composite_frame ?P (the (imread (map_of ?d nm))))"
  let ?names = "sort (map frame_name [0..<length long_video])"
  have ok: "\<forall>f\<in>set long_video. \<exists>img. composite_frame ?P (to_bgr (id f)) = Inr img"
    using composite_long_video by auto
  have n: "1 \<le> length long_video" by (simp add: length_long_video)
  have pr: "imread_unchanged (Some (ImageFile ?P)) = Some ?P" by simp
  from assembled_frames [OF n pr ok, of 24]
  obtain out where out: "create_video_with_overlay (Directory ?d) (Some (ImageFile ?P)) 24 = Inr out"
    "vw_frames out = map ?g ?names"
    "vw_width out = width (the (imread (map_of ?d (hd ?names))))"
    "vw_height out = height (the (imread (map_of ?d (hd ?names))))"
    by blast
  have rd: "imread (map_of ?d (frame_name i)) = Some (long_video ! i)"
    if "i < length long_video" for i
  proof -
    from that have "long_video ! i \<in> set long_video" by simp
    from composite_long_video [OF this] map_of_frame_files [OF that, of id]
    show ?thesis by simp
  qed
  have l0: "0 < length long_video" by (simp add: length_long_video)
  then have "long_video ! 0 \<in> set long_video" by (rule nth_mem)
  from rd [OF l0] composite_long_video [OF this]
  have size: "vw_width out = 1280" "vw_height out = 720"
    unfolding out(3,4) length_long_video hd_sort_frame_names_10001 by simp_all
  have each: "width x = vw_width out \<and> height x = vw_height out \<and> chans x = 3"
    if "x \<in> set (vw_frames out)" for x
  proof -
    from that obtain i where i: "i < length long_video" "x = ?g (frame_name i)"
      unfolding out(2) by auto
    from i(1) have "long_video ! i \<in> set long_video" by simp
    from composite_long_video [OF this] i(2) rd [OF i(1)] size show ?thesis
      by auto
  qed
  then have dec: "decoded_frames True codec out = map codec (vw_frames out)" for codec
    by (simp add: decoded_frames_def filter_id_conv)
  have len: "length (vw_frames out) = 10001"
    unfolding out(2) by (simp only: length_map length_sort length_upt length_long_video)
  have "vw_frames out = map ?g (map frame_name ([0..<1001] @ 10000 # [1001..<10000]))"
    unfolding out(2) length_long_video sort_frame_names_10001 ..
  then have "vw_frames out = map (\<lambda>i. ?g (frame_name i)) [0..<1001]
       @ ?g (frame_name 10000) # map (\<lambda>i. ?g (frame_name i)) [1001..<10000]"
    by (simp only: map_append list.map map_map comp_def)
  moreover have "length (map (\<lambda>i. ?g (frame_name i)) [0..<1001]) = 1001"
    by (simp only: length_map length_upt)
  ultimately have "vw_frames out ! 1001 = ?g (frame_name 10000)"
    by (metis nth_append_length)
  moreover have "10000 < length long_video" by (simp add: length_long_video)
  ultimately have fr: "vw_frames out ! 1001 = projr (composite_frame ?P (long_video ! 10000))"
    using rd [of 10000] by simp
  have at: "decoded_frames True codec out ! 1001
      = codec (projr (composite_frame ?P (long_video ! 10000)))" for codec
    unfolding dec using len fr by simp
  have 1: "split_video_to_frames id (Frames long_video) Missing = Inr (Directory ?d, 10001)"
    using split_frame_files [of Missing id long_video] by (simp add: length_long_video)
  obtain a b where ab: "composite_frame ?P (long_video ! 10000) = Inr a"
    "composite_frame ?P (long_video ! 1001) = Inr b"
    using composite_solid [of 720 1280 0 0 255] composite_solid [of 720 1280 0 0 0]
    by (auto simp: long_video_10000 long_video_1001)
  with composites_differ have "a \<noteq> b"
    by (simp add: long_video_10000 long_video_1001)
  with ab at [of id] have 5: "decoded_frames True id out ! 1001
      \<noteq> projr (composite_frame ?P (long_video ! 1001))"
    by simp
  from 1 out(1) dec len at 5 show ?thesis by simp
qed

section \<open>Frame Assembler: an empty directory, an unreadable first frame\<close>

text \<open>
  Claim C8, as amended. The function checks the product image only. With a frames
  directory that is empty, or whose first file in sorted order cannot be read as an
  image, it fails, but not with an \<open>IOError\<close>: with \<open>IndexError\<close> from \<open>[0]\<close> on the empty
  listing, with \<open>AttributeError\<close> from \<open>first_frame.shape\<close> on \<open>None\<close>, and before either
  with its own \<open>ValueError\<close> when the product image does not load.
\<close>

theorem assembler_fails_on_empty_or_unreadable:
  assumes "d = [] \<or> (\<exists>first rest. sort (listdir d) = first # rest \<and> imread (map_of d first) = None)"
  shows "create_video_with_overlay (Directory d) product_path fps =
     Inl (if imread_unchanged product_path = None then ValueError
          else if d = [] then IndexError else AttributeError)"
proof (cases "imread_unchanged product_path")
  case None
  then show ?thesis by (simp add: create_video_with_overlay_def)
next
  case (Some P)
  show ?thesis
  proof (cases "d = []")
    case True
    with Some show ?thesis
      by (simp add: create_video_with_overlay_def alloc_def listdir_def)
  next
    case False
    with assms obtain first rest where "sort (listdir d) = first # rest"
      "imread (map_of d first) = None"
      by blast
    with Some False show ?thesis
      by (simp add: create_video_with_overlay_def alloc_def)
  qed
qed

theorem assembler_fails_on_empty_or_unreadable_witness:
  "create_video_with_overlay (Directory []) (Some (ImageFile (cutout 1 1 0 0))) 24 = Inl IndexError
   \<and> create_video_with_overlay (Directory [(''frame_0000.jpg'', OtherFile)])
        (Some (ImageFile (cutout 1 1 0 0))) 24 = Inl AttributeError
   \<and> create_video_with_overlay (Directory []) None 24 = Inl ValueError"
proof -
  have 1: "[] = [] \<or> (\<exists>first rest. sort (listdir []) = first # rest \<and> imread (map_of [] first) = None)"
    by simp
  have 2: "[(''frame_0000.jpg'', OtherFile)] = []
    \<or> (\<exists>first rest. sort (listdir [(''frame_0000.jpg'', OtherFile)]) = first # rest
          \<and> imread (map_of [(''frame_0000.jpg'', OtherFile)] first) = None)"
    by (simp add: listdir_def)
  from assembler_fails_on_empty_or_unreadable [OF 1, of "Some (ImageFile (cutout 1 1 0 0))" 24]
    assembler_fails_on_empty_or_unreadable [OF 2, of "Some (ImageFile (cutout 1 1 0 0))" 24]
    assembler_fails_on_empty_or_unreadable [OF 1, of None 24]
  show ?thesis by simp
qed

text \<open>The claim as stated fails in the kind of error: neither is an \<open>OSError\<close>.\<close>

theorem assembler_error_kind_counterexample:
  "create_video_with_overlay (Directory []) (Some (ImageFile (cutout 1 1 0 0))) 24 = Inl IndexError
   \<and> \<not> is_IOError IndexError
   \<and> create_video_with_overlay (Directory [(''frame_0000.jpg'', OtherFile)])
        (Some (ImageFile (cutout 1 1 0 0))) 24 = Inl AttributeError
   \<and> \<not> is_IOError AttributeError"
  by (simp add: create_video_with_overlay_def alloc_def listdir_def)

section \<open>Pipeline Orchestrator: when the frame directory is removed\<close>

lemma delete_keys: "fst ` set (AList.delete k d) = fst ` set d - {k}"
  by (auto simp: AList.delete_eq image_iff)

lemma remove_loop_files:
  assumes "distinct ns" "set ns \<subseteq> fst ` set d" "\<forall>n\<in>set ns. map_of d n \<noteq> Some SubDirectory"
  shows "remove_loop ns d = (None, filter (\<lambda>(k, v). k \<notin> set ns) d)"
  using assms
proof (induction ns arbitrary: d)
  case Nil
  then show ?case by simp
next
  case (Cons n ns)
  from Cons.prems(2) have "map_of d n \<noteq> None" by (simp add: map_of_eq_None_iff)
  then obtain v where v: "map_of d n = Some v" by blast
  with Cons.prems(3) have "v \<noteq> SubDirectory" by auto
  with v have step: "remove_loop (n # ns) d = remove_loop ns (AList.delete n d)"
    by (cases v) simp_all
  have 1: "distinct ns" using Cons.prems(1) by simp
  have 2: "set ns \<subseteq> fst ` set (AList.delete n d)"
    using Cons.prems(1,2) by (auto simp: delete_keys)
  have 3: "\<forall>n'\<in>set ns. map_of (AList.delete n d) n' \<noteq> Some SubDirectory"
    using Cons.prems(3) by (simp add: AList.delete_conv')
  have "filter (\<lambda>(k, v). k \<notin> set ns) (AList.delete n d) = filter (\<lambda>(k, v). k \<notin> set (n # ns)) d"
    by (auto simp: AList.delete_eq case_prod_unfold intro: filter_cong)
  with Cons.IH [OF 1 2 3] step show ?case by simp
qed

lemma remove_loop_subdirectory:
  assumes "distinct ns" "set ns \<subseteq> fst ` set d" "n0 \<in> set ns" "map_of d n0 = Some SubDirectory"
  shows "\<exists>d'. remove_loop ns d = (Some IsADirectoryError, d') \<and> d' \<noteq> []"
  using assms
proof (induction ns arbitrary: d)
  case Nil
  then show ?case by simp
next
  case (Cons n ns)
  from Cons.prems(2) have "map_of d n \<noteq> None" by (simp add: map_of_eq_None_iff)
  then obtain v where v: "map_of d n = Some v" by blast
  show ?case
  proof (cases "v = SubDirectory")
    case True
    with v have "remove_loop (n # ns) d = (Some IsADirectoryError, d)" by simp
    moreover have "d \<noteq> []" using v by auto
    ultimately show ?thesis by simp
  next
    case False
    with v have step: "remove_loop (n # ns) d = remove_loop ns (AList.delete n d)"
      by (cases v) simp_all
    from False v Cons.prems(4) have ne: "n0 \<noteq> n" by auto
    with Cons.prems(3) have 3: "n0 \<in> set ns" by simp
    have 1: "distinct ns" using Cons.prems(1) by simp
    have 2: "set ns \<subseteq> fst ` set (AList.delete n d)"
      using Cons.prems(1,2) by (auto simp: delete_keys)
    have 4: "map_of (AList.delete n d) n0 = Some SubDirectory"
      using Cons.prems(4) ne by (simp add: AList.delete_conv')
    from Cons.IH [OF 1 2 3 4] step show ?thesis by simp
  qed
qed

text \<open>When the loop has come to its end every entry that was listed is gone: in a run
  that nothing else interferes with, \<open>os.rmdir\<close> finds the directory empty, and the cleanup
  can fail in \<open>os.remove\<close> only.\<close>

lemma remove_loop_done:
  "remove_loop ns d = (None, d') \<Longrightarrow> d' = filter (\<lambda>(k, v). k \<notin> set ns) d"
proof (induction ns arbitrary: d)
  case Nil
  then show ?case by simp
next
  case (Cons n ns)
  from Cons.prems have "remove_loop ns (AList.delete n d) = (None, d')"
    by (auto split: option.splits content.splits)
  then have "d' = filter (\<lambda>(k, v). k \<notin> set ns) (AList.delete n d)"
    by (rule Cons.IH)
  also have "\<dots> = filter (\<lambda>(k, v). k \<notin> set (n # ns)) d"
    by (auto simp: AList.delete_eq case_prod_unfold intro: filter_cong)
  finally show ?case .
qed

lemma rmdir_after_loop: "remove_loop (listdir d) d = (None, d') \<Longrightarrow> d' = []"
  by (drule remove_loop_done) (force simp: listdir_def filter_empty_conv)

lemma cleanup_files:
  assumes "distinct (listdir d)" "SubDirectory \<notin> snd ` set d"
  shows "cleanup (Directory d) = (None, Missing)"
proof -
  have "\<forall>n\<in>set (listdir d). map_of d n \<noteq> Some SubDirectory"
  proof
    fix n assume "n \<in> set (listdir d)"
    show "map_of d n \<noteq> Some SubDirectory"
    proof
      assume "map_of d n = Some SubDirectory"
      then have "(n, SubDirectory) \<in> set d" by (rule map_of_SomeD)
      with assms(2) show False by force
    qed
  qed
  with assms(1) have "remove_loop (listdir d) d = (None, filter (\<lambda>(k, v). k \<notin> set (listdir d)) d)"
    by (intro remove_loop_files) (simp_all add: listdir_def)
  moreover have "filter (\<lambda>(k, v). k \<notin> set (listdir d)) d = []"
    by (force simp: listdir_def filter_empty_conv)
  ultimately show ?thesis by (simp add: cleanup_def)
qed

lemma cleanup_subdirectory:
  assumes "distinct (listdir d)" "SubDirectory \<in> snd ` set d"
  shows "\<exists>d'. cleanup (Directory d) = (Some IsADirectoryError, Directory d') \<and> d' \<noteq> []"
proof -
  from assms(2) obtain n0 where n0: "(n0, SubDirectory) \<in> set d" by force
  with assms(1) have m: "map_of d n0 = Some SubDirectory" by (simp add: listdir_def)
  from n0 have "n0 \<in> set (listdir d)" by (force simp: listdir_def)
  from remove_loop_subdirectory [OF assms(1) _ this m]
  obtain d' where "remove_loop (listdir d) d = (Some IsADirectoryError, d')" "d' \<noteq> []"
    by (auto simp: listdir_def)
  then show ?thesis by (simp add: cleanup_def)
qed

lemma subdirectory_map_of:
  "distinct (listdir d) \<Longrightarrow> SubDirectory \<in> snd ` set d \<longleftrightarrow> (\<exists>k. map_of d k = Some SubDirectory)"
  by (force simp: listdir_def)

lemma imwrite_distinct: "distinct (listdir d) \<Longrightarrow> distinct (listdir (imwrite jpeg p f d))"
  by (simp add: imwrite_def listdir_def distinct_update)

lemma imwrite_subdirectory:
  assumes "distinct (listdir d)"
  shows "SubDirectory \<in> snd ` set (imwrite jpeg p f d) \<longleftrightarrow> SubDirectory \<in> snd ` set d"
proof (cases "map_of d p = Some SubDirectory")
  case True
  then show ?thesis by (simp add: imwrite_def)
next
  case False
  have "(\<exists>k. ((map_of d)(p \<mapsto> ImageFile (jpeg f))) k = Some SubDirectory)
      \<longleftrightarrow> (\<exists>k. map_of d k = Some SubDirectory)"
    using False by (metis content.distinct(3) fun_upd_apply option.inject)
  then show ?thesis
    unfolding subdirectory_map_of [OF assms] subdirectory_map_of [OF imwrite_distinct [OF assms]]
    using False by (simp add: imwrite_def update_conv')
qed

lemma read_loop_entries:
  assumes "distinct (listdir d)"
  shows "distinct (listdir (fst (read_loop jpeg fs k d)))
     \<and> (SubDirectory \<in> snd ` set (fst (read_loop jpeg fs k d)) \<longleftrightarrow> SubDirectory \<in> snd ` set d)"
  using assms
proof (induction fs arbitrary: k d)
  case Nil
  then show ?case by simp
next
  case (Cons f fs)
  let ?d = "imwrite jpeg (frame_name k) f d"
  have "distinct (listdir ?d)" using Cons.prems by (rule imwrite_distinct)
  then have "distinct (listdir (fst (read_loop jpeg fs (Suc k) ?d)))
     \<and> (SubDirectory \<in> snd ` set (fst (read_loop jpeg fs (Suc k) ?d))
          \<longleftrightarrow> SubDirectory \<in> snd ` set ?d)"
    by (rule Cons.IH)
  moreover have "SubDirectory \<in> snd ` set ?d \<longleftrightarrow> SubDirectory \<in> snd ` set d"
    using Cons.prems by (rule imwrite_subdirectory)
  ultimately show ?case by simp
qed

lemma split_entries:
  assumes "split_video_to_frames jpeg video_path frames_folder = Inr (folder1, frame_count)"
    and "distinct_names frames_folder"
  shows "\<exists>d1. folder1 = Directory d1 \<and> distinct (listdir d1)
     \<and> (SubDirectory \<in> snd ` set d1 \<longleftrightarrow> holds_subdirectory frames_folder)"
proof -
  from assms(1) obtain d0 where d0: "mkdir_exist_ok frames_folder = Inr d0"
    by (auto simp: split_video_to_frames_def split: sum.splits)
  then have e: "entries frames_folder = d0"
    by (auto simp: mkdir_exist_ok_def entries_def split: node.splits)
  with assms(2) have dist: "distinct (listdir d0)" by (simp add: distinct_names_def)
  show ?thesis
  proof (cases video_path)
    case Unopenable
    with assms(1) d0 have "folder1 = Directory d0"
      by (simp add: split_video_to_frames_def)
    with e dist show ?thesis
      by (simp add: holds_subdirectory_def)
  next
    case (Frames fs)
    with assms(1) d0 have "folder1 = Directory (fst (read_loop jpeg fs 0 d0))"
      by (auto simp: split_video_to_frames_def split: prod.splits)
    with e read_loop_entries [OF dist, of jpeg fs 0] show ?thesis
      by (simp add: holds_subdirectory_def)
  qed
qed

lemma assembled_beside_subdirectory:
  "\<exists>out. create_video_with_overlay
           (Directory [(''zsub'', SubDirectory), (''frame_0000.jpg'', ImageFile (solid 720 1280 3 0))])
           (Some (ImageFile (cutout 720 1280 0 0))) 24 = Inr out"
proof -
  let ?P = "cutout 720 1280 0 0"
  let ?f = "solid 720 1280 3 0"
  let ?d = "[(''zsub'', SubDirectory), (''frame_0000.jpg'', ImageFile ?f)]"
  have names: "sort (listdir ?d) = [''frame_0000.jpg'', ''zsub'']"
    by (simp add: listdir_def)
  have rd: "imread (map_of ?d ''frame_0000.jpg'') = Some ?f"
    by (simp add: to_bgr_def solid_def)
  from composite_solid [of 720 1280 0 0 0]
  obtain img where img: "composite_frame ?P ?f = Inr img" by auto
  have "\<forall>nm\<in>set [''frame_0000.jpg'', ''zsub'']. (endswith nm ''.jpg'' \<or> endswith nm ''.png'')
          \<longrightarrow> (\<exists>f img. imread (map_of ?d nm) = Some f \<and> composite_frame ([?P] ! 0) f = Inr img)"
    using rd img by (simp add: endswith_def)
  from overlay_loop_result [OF _ this, of "[]"]
  obtain frames where "overlay_loop [''frame_0000.jpg'', ''zsub''] ?d 0 [?P] [] = Inr frames"
    by auto
  with names rd show ?thesis
    by (simp add: create_video_with_overlay_def alloc_def)
qed

text \<open>
  Claim C2, as amended. The cleanup is the tail of a straight-line cell without
  \<open>try\<close>/\<open>finally\<close>, and it removes files only. After an extraction that succeeded, into a
  path that was missing or a directory (whose names are all different, as in every file
  system): if the assembly succeeds too and the directory held no sub-directory before
  the run, every file of the frame directory and the directory itself are removed, and
  nothing is left at the path; if the assembly succeeds and the directory held a
  sub-directory, \<open>os.remove\<close> raises at it (\<open>IsADirectoryError\<close>, as Linux reports it) and the
  directory stays; if the assembly raises, the cell ends there and the directory stays
  as the extractor left it.
\<close>

theorem pipeline_cleanup:
  assumes "split_video_to_frames jpeg video_path frames_folder = Inr (folder1, frame_count)"
    and "distinct_names frames_folder"
  shows "(create_video_with_overlay folder1 product_path 24 = Inr out
            \<and> \<not> holds_subdirectory frames_folder
            \<longrightarrow> run_pipeline jpeg video_path product_path frames_folder = (Inr out, Missing))
       \<and> (create_video_with_overlay folder1 product_path 24 = Inr out
            \<and> holds_subdirectory frames_folder
            \<longrightarrow> fst (run_pipeline jpeg video_path product_path frames_folder)
                  = Inl IsADirectoryError
                \<and> snd (run_pipeline jpeg video_path product_path frames_folder) \<noteq> Missing)
       \<and> (create_video_with_overlay folder1 product_path 24 = Inl e
            \<longrightarrow> run_pipeline jpeg video_path product_path frames_folder = (Inl e, folder1)
                \<and> folder1 \<noteq> Missing)"
proof -
  from split_entries [OF assms] obtain d1 where d1: "folder1 = Directory d1"
    "distinct (listdir d1)"
    "SubDirectory \<in> snd ` set d1 \<longleftrightarrow> holds_subdirectory frames_folder"
    by blast
  have 1: "run_pipeline jpeg video_path product_path frames_folder = (Inr out, Missing)"
    if "create_video_with_overlay folder1 product_path 24 = Inr out"
      "\<not> holds_subdirectory frames_folder"
    using that assms(1) d1 cleanup_files [of d1] by (simp add: run_pipeline_def)
  have 2: "fst (run_pipeline jpeg video_path product_path frames_folder) = Inl IsADirectoryError
      \<and> snd (run_pipeline jpeg video_path product_path frames_folder) \<noteq> Missing"
    if "create_video_with_overlay folder1 product_path 24 = Inr out"
      "holds_subdirectory frames_folder"
  proof -
    from that(2) d1 cleanup_subdirectory [of d1]
    obtain d' where "cleanup (Directory d1) = (Some IsADirectoryError, Directory d')" by auto
    with that(1) assms(1) d1(1) show ?thesis by (simp add: run_pipeline_def)
  qed
  have 3: "run_pipeline jpeg video_path product_path frames_folder = (Inl e, folder1)
      \<and> folder1 \<noteq> Missing"
    if "create_video_with_overlay folder1 product_path 24 = Inl e"
    using that assms(1) d1(1) by (simp add: run_pipeline_def)
  from 1 2 3 show ?thesis by blast
qed


theorem pipeline_cleanup_witness:
  "(\<exists>out. run_pipeline id (Frames [solid 720 1280 3 0]) (Some (ImageFile (cutout 720 1280 0 0)))
            Missing = (Inr out, Missing))
   \<and> fst (run_pipeline id (Frames [solid 720 1280 3 0]) (Some (ImageFile (cutout 720 1280 0 0)))
            (Directory [(''zsub'', SubDirectory)])) = Inl IsADirectoryError
   \<and> snd (run_pipeline id (Frames [solid 720 1280 3 0]) (Some (ImageFile (cutout 720 1280 0 0)))
            (Directory [(''zsub'', SubDirectory)])) \<noteq> Missing
   \<and> run_pipeline id (Frames [solid 720 1280 3 0]) None Missing
       = (Inl ValueError, Directory [(''frame_0000.jpg'', ImageFile (solid 720 1280 3 0))])"
proof -
  let ?fs = "[solid 720 1280 3 0]"
  let ?P = "cutout 720 1280 0 0"
  let ?d0 = "[(''frame_0000.jpg'', ImageFile (solid 720 1280 3 0))]"
  let ?sub = "[(''zsub'', SubDirectory)]"
  let ?d1 = "[(''zsub'', SubDirectory), (''frame_0000.jpg'', ImageFile (solid 720 1280 3 0))]"
  have sp0: "split_video_to_frames id (Frames ?fs) Missing = Inr (Directory ?d0, 1)"
    by (simp add: split_video_to_frames_def mkdir_exist_ok_def imwrite_def frame_name_0)
  have sp1: "split_video_to_frames id (Frames ?fs) (Directory ?sub) = Inr (Directory ?d1, 1)"
    by (simp add: split_video_to_frames_def mkdir_exist_ok_def imwrite_def frame_name_0)
  have names: "distinct_names Missing" "distinct_names (Directory ?sub)"
    "\<not> holds_subdirectory Missing" "holds_subdirectory (Directory ?sub)"
    by (simp_all add: distinct_names_def holds_subdirectory_def entries_def listdir_def)
  have "to_bgr (id (solid 720 1280 3 0)) = solid 720 1280 3 0"
    by (simp add: to_bgr_def solid_def)
  with composite_solid [of 720 1280 0 0 0]
  have ok: "\<forall>f\<in>set ?fs. \<exists>img. composite_frame ?P (to_bgr (id f)) = Inr img"
    by auto
  have "1 \<le> length ?fs" "imread_unchanged (Some (ImageFile ?P)) = Some ?P" by simp_all
  from assembled_frames [OF this ok, of 24]
  obtain out0 where
    out0: "create_video_with_overlay (Directory ?d0) (Some (ImageFile ?P)) 24 = Inr out0"
    by (auto simp: frame_files_def frame_name_0)
  from assembled_beside_subdirectory
  obtain out1 where
    out1: "create_video_with_overlay (Directory ?d1) (Some (ImageFile ?P)) 24 = Inr out1"
    by blast
  have fail: "create_video_with_overlay (Directory ?d0) None 24 = Inl ValueError"
    by (simp add: create_video_with_overlay_def)
  from pipeline_cleanup [OF sp0 names(1), of "Some (ImageFile ?P)" out0] out0 names(3)
  have 1: "run_pipeline id (Frames ?fs) (Some (ImageFile ?P)) Missing = (Inr out0, Missing)"
    by simp
  from pipeline_cleanup [OF sp1 names(2), of "Some (ImageFile ?P)" out1] out1 names(4)
  have 2: "fst (run_pipeline id (Frames ?fs) (Some (ImageFile ?P)) (Directory ?sub))
        = Inl IsADirectoryError"
    "snd (run_pipeline id (Frames ?fs) (Some (ImageFile ?P)) (Directory ?sub)) \<noteq> Missing"
    by simp_all
  from pipeline_cleanup [OF sp0 names(1), of None _ ValueError] fail
  have 3: "run_pipeline id (Frames ?fs) None Missing = (Inl ValueError, Directory ?d0)"
    by simp
  from 1 2 3 show ?thesis by blast
qed

text \<open>The claim as stated fails on a failing run: with a product image that does not
  load, the assembler raises and the frame directory is still there, with its frame.\<close>

theorem pipeline_failure_counterexample:
  "run_pipeline id (Frames [solid 720 1280 3 0]) None Missing
     = (Inl ValueError, Directory [(''frame_0000.jpg'', ImageFile (solid 720 1280 3 0))])"
  by (simp add: run_pipeline_def split_video_to_frames_def mkdir_exist_ok_def imwrite_def
      frame_name_0 create_video_with_overlay_def)

text \<open>It fails on a run whose two stages succeed, too: with a sub-directory \<open>zsub\<close> in the
  frame directory the assembler skips it (its name ends in neither \<open>.jpg\<close> nor \<open>.png\<close>),
  and the cleanup loop stops at it with the directory and the frame file still there.\<close>

lemma cleanup_stops_at_subdirectory:
  "run_pipeline id (Frames [solid 720 1280 3 0]) (Some (ImageFile (cutout 720 1280 0 0)))
       (Directory [(''zsub'', SubDirectory)])
     = (Inl IsADirectoryError,
        Directory [(''zsub'', SubDirectory), (''frame_0000.jpg'', ImageFile (solid 720 1280 3 0))])"
proof -
  from assembled_beside_subdirectory
  obtain out where "create_video_with_overlay
           (Directory [(''zsub'', SubDirectory), (''frame_0000.jpg'', ImageFile (solid 720 1280 3 0))])
           (Some (ImageFile (cutout 720 1280 0 0))) 24 = Inr out"
    by blast
  then show ?thesis
    by (simp add: run_pipeline_def split_video_to_frames_def mkdir_exist_ok_def imwrite_def
      frame_name_0 cleanup_def listdir_def)
qed

section \<open>Transcoder: when the clip is closed\<close>

text \<open>
  Claim C9, as amended. \<open>clip.close()\<close> is the last statement of a function without
  \<open>try\<close>/\<open>finally\<close> or \<open>with\<close>: the clip is closed exactly on the runs that return
  normally. When the input cannot be opened no clip was acquired; when
  \<open>write_videofile\<close> raises, the clip is still open as the error reaches the caller.
\<close>

theorem transcoder_release:
  "(fst (convert_to_h264 input_readable write_succeeds n) = Inr ()
      \<longrightarrow> snd (convert_to_h264 input_readable write_succeeds n) = n)
   \<and> (\<not> input_readable
      \<longrightarrow> convert_to_h264 input_readable write_succeeds n = (Inl ClipError, n))
   \<and> (input_readable \<and> \<not> write_succeeds
      \<longrightarrow> convert_to_h264 input_readable write_succeeds n = (Inl ClipError, n + 1))"
  by (simp add: convert_to_h264_def)

theorem transcoder_release_witness:
  "fst (convert_to_h264 True True 0) = Inr () \<and> snd (convert_to_h264 True True 0) = 0
   \<and> convert_to_h264 False True 0 = (Inl ClipError, 0)
   \<and> convert_to_h264 True False 0 = (Inl ClipError, 0 + 1)"
  using transcoder_release [of True True 0] transcoder_release [of False True 0]
    transcoder_release [of True False 0]
  by (simp add: convert_to_h264_def)

text \<open>The claim as stated fails when the write fails: the error propagates with one clip
  open that was not open before.\<close>

theorem transcoder_write_failure_counterexample:
  "convert_to_h264 True False 0 = (Inl ClipError, 1)"
  by (simp add: convert_to_h264_def)

end
